theory Spec2Isabelle
  imports Main "HOL-Library.Sublist" "HOL-Library.While_Combinator"
begin

chapter \<open>The model\<close>

section \<open>Python strings\<close>

text \<open>
  A Python \<open>str\<close> is modelled as a \<open>string\<close> (a list of characters), a character
  standing for the code point of the same number, so that the model covers the strings
  of code points below 256.  The characters on which
  \<open>str.split()\<close> (called without argument) cuts are the ones \<open>str.isspace\<close> accepts;
  below 256 these are the code points 9 to 13, 28 to 32, 133 and 160.
\<close>

definition isspace :: "char \<Rightarrow> bool" where
  "isspace c \<longleftrightarrow> c \<in> {CHR 0x09, CHR 0x0A, CHR 0x0B, CHR 0x0C, CHR 0x0D,
                      CHR 0x1C, CHR 0x1D, CHR 0x1E, CHR 0x1F, CHR 0x20, CHR 0x85, CHR 0xA0}"

text \<open>\<open>token.split()\<close>: the maximal runs of non-whitespace characters, left to right.
  \<open>split_from cur s\<close> scans \<open>s\<close> with the run \<open>cur\<close> read so far.\<close>

fun split_from :: "string \<Rightarrow> string \<Rightarrow> string list" where
  "split_from cur [] = (if cur = [] then [] else [cur])"
| "split_from cur (c # cs) =
     (if isspace c then (if cur = [] then split_from [] cs else cur # split_from [] cs)
      else split_from (cur @ [c]) cs)"

definition split :: "string \<Rightarrow> string list" where
  "split token = split_from [] token"

text \<open>\<open>sep.join(xs)\<close>.\<close>

fun join :: "string \<Rightarrow> string list \<Rightarrow> string" where
  "join sep [] = []"
| "join sep [x] = x"
| "join sep (x # y # ys) = x @ sep @ join sep (y # ys)"

text \<open>\<open>s.replace(old, new)\<close>: the occurrences of \<open>old\<close> are found from the left and do
  not overlap; an empty \<open>old\<close> matches before every character and at the end.\<close>

fun replace :: "string \<Rightarrow> string \<Rightarrow> string \<Rightarrow> string" where
  "replace [] old new = (if old = [] then new else [])"
| "replace (c # cs) old new =
     (if old = [] then new @ c # replace cs old new
      else if prefix old (c # cs) then new @ replace (drop (length old) (c # cs)) old new
      else c # replace cs old new)"

text \<open>\<open>token[start:end]\<close> for indices that are not negative.\<close>

definition slice :: "'a list \<Rightarrow> nat \<Rightarrow> nat \<Rightarrow> 'a list" where
  "slice token start end = take (end - start) (drop start token)"

section \<open>Python dictionaries\<close>

text \<open>
  A \<open>dict\<close> keeps its keys in insertion order, and both \<open>items()\<close> and \<open>max\<close> walk
  them in that order: it is an association list whose keys are distinct.
  \<open>dict_set k v d\<close> is \<open>d[k] = v\<close>: a known key keeps its place and takes the new
  value, a new key goes to the end.  \<open>dict_add k v d\<close> is \<open>d[k] += v\<close> on a
  \<open>collections.defaultdict(int)\<close>, where a missing key counts as 0.
\<close>

type_synonym ('k, 'v) dict = "('k \<times> 'v) list"

fun dict_set :: "'k \<Rightarrow> 'v \<Rightarrow> ('k, 'v) dict \<Rightarrow> ('k, 'v) dict" where
  "dict_set k v [] = [(k, v)]"
| "dict_set k v ((k', v') # d) = (if k' = k then (k', v) # d else (k', v') # dict_set k v d)"

fun dict_add :: "'k \<Rightarrow> int \<Rightarrow> ('k, int) dict \<Rightarrow> ('k, int) dict" where
  "dict_add k v [] = [(k, 0 + v)]"
| "dict_add k v ((k', v') # d) =
     (if k' = k then (k', v' + v) # d else (k', v') # dict_add k v d)"

text \<open>\<open>d.get(k)\<close> for a key known to be present, and 0 otherwise (the value a
  \<open>defaultdict(int)\<close> stands for).\<close>

fun dict_get :: "('k, int) dict \<Rightarrow> 'k \<Rightarrow> int" where
  "dict_get [] k = 0"
| "dict_get ((k', v') # d) k = (if k' = k then v' else dict_get d k)"

text \<open>\<open>max(d, key=d.get)\<close>: the first key, in insertion order, whose value no other
  key exceeds; on an empty dictionary \<open>max\<close> raises \<open>ValueError\<close>.\<close>

datatype error = ValueError | AttributeError

fun max_from :: "'k \<times> int \<Rightarrow> ('k, int) dict \<Rightarrow> 'k \<times> int" where
  "max_from best [] = best"
| "max_from best ((k, v) # d) = (if v > snd best then max_from (k, v) d else max_from best d)"

fun max_key :: "('k, int) dict \<Rightarrow> error + 'k" where
  "max_key [] = Inl ValueError"
| "max_key (kv # d) = Inr (fst (max_from kv d))"

section \<open>Byte pair encoding\<close>

definition symbols0 :: "string list" where
  "symbols0 = [''a'', ''b'', ''c'', ''d'', ''e'', ''f'', ''g'', ''h'', ''i'', ''j'', ''k'', ''l'', ''m'',
               ''n'', ''o'', ''p'', ''q'', ''r'', ''s'', ''t'', ''u'', ''v'', ''w'', ''x'', ''y'', ''z'',
               ''_'', ''[UNK]'']"

text \<open>The table \<open>token_freqs\<close> as the notebook builds it from \<open>raw_token_freqs\<close>:
  one space between every two characters of a word.\<close>

definition init_token_freqs :: "(string, int) dict \<Rightarrow> (string, int) dict" where
  "init_token_freqs raw_token_freqs =
     fold (\<lambda>(token, freq) token_freqs. dict_set (join '' '' (map (\<lambda>c. [c]) token)) freq token_freqs)
       raw_token_freqs []"

text \<open>The pairs \<open>(symbols[i], symbols[i + 1])\<close> for \<open>i\<close> in \<open>range(len(symbols) - 1)\<close>.\<close>

definition adjacent :: "'a list \<Rightarrow> ('a \<times> 'a) list" where
  "adjacent symbols = map (\<lambda>i. (symbols ! i, symbols ! (i + 1))) [0..<length symbols - 1]"

text \<open>The dictionary \<open>pairs\<close> at the end of the two loops of \<open>get_max_freq_pair\<close>.\<close>

definition count_pairs :: "(string, int) dict \<Rightarrow> (string \<times> string, int) dict" where
  "count_pairs token_freqs =
     fold (\<lambda>(token, freq) pairs. fold (\<lambda>p ps. dict_add p freq ps) (adjacent (split token)) pairs)
       token_freqs []"

definition get_max_freq_pair :: "(string, int) dict \<Rightarrow> error + string \<times> string" where
  "get_max_freq_pair token_freqs = max_key (count_pairs token_freqs)"

text \<open>\<open>merge_symbols\<close> appends to the list \<open>symbols\<close> it is given and returns a new
  table: the model returns the new table and the list after the call.  The value
  \<open>token_freqs[token]\<close> that the loop stores is the \<open>freq\<close> of the item it visits.\<close>

definition merge_symbols ::
  "string \<times> string \<Rightarrow> (string, int) dict \<Rightarrow> string list \<Rightarrow> (string, int) dict \<times> string list" where
  "merge_symbols max_freq_pair token_freqs symbols =
     (let symbols' = symbols @ [join '''' [fst max_freq_pair, snd max_freq_pair]];
          new_token_freqs =
            fold (\<lambda>(token, freq) new_token_freqs.
                    dict_set (replace token (join '' '' [fst max_freq_pair, snd max_freq_pair])
                                            (join '''' [fst max_freq_pair, snd max_freq_pair]))
                             freq new_token_freqs)
              token_freqs []
      in (new_token_freqs, symbols'))"

section \<open>Segmentation\<close>

text \<open>
  The \<open>while\<close> loop of \<open>segment_BPE\<close> runs on the triple of \<open>start\<close>, \<open>end\<close> and
  \<open>cur_output\<close>.  It is modelled with \<open>while_option\<close>, whose value is \<open>None\<close> when the
  loop never leaves: that the loop ends is then a property to be proved, not a part of
  the definition.
\<close>

definition seg_cond :: "string \<Rightarrow> nat \<times> nat \<times> string list \<Rightarrow> bool" where
  "seg_cond token = (\<lambda>(start, end, cur_output). start < length token \<and> start < end)"

definition seg_body :: "string \<Rightarrow> string list \<Rightarrow> nat \<times> nat \<times> string list \<Rightarrow> nat \<times> nat \<times> string list" where
  "seg_body token symbols =
     (\<lambda>(start, end, cur_output).
        if slice token start end \<in> set symbols
        then (end, length token, cur_output @ [slice token start end])
        else (start, end - 1, cur_output))"

text \<open>The body of the \<open>for\<close> loop for one token, up to the \<open>join\<close>: the list
  \<open>cur_output\<close> after the \<open>if start < len(token)\<close> that follows the \<open>while\<close>.\<close>

definition segment_token :: "string \<Rightarrow> string list \<Rightarrow> string list option" where
  "segment_token token symbols =
     (case while_option (seg_cond token) (seg_body token symbols) (0, length token, []) of
        None \<Rightarrow> None
      | Some (start, end, cur_output) \<Rightarrow>
          Some (if start < length token then cur_output @ [''[UNK]''] else cur_output))"

fun segment_BPE :: "string list \<Rightarrow> string list \<Rightarrow> string list option" where
  "segment_BPE [] symbols = Some []"
| "segment_BPE (token # tokens) symbols =
     (case segment_token token symbols of
        None \<Rightarrow> None
      | Some cur_output \<Rightarrow>
          (case segment_BPE tokens symbols of
             None \<Rightarrow> None
           | Some outputs \<Rightarrow> Some (join '' '' cur_output # outputs)))"

section \<open>Quantities the properties speak about\<close>

text \<open>\<open>sum(d.values())\<close>: the frequency mass of a table.\<close>

definition total_freq :: "('k, int) dict \<Rightarrow> int" where
  "total_freq d = sum_list (map snd d)"

text \<open>A key with its delimiters taken out: the word the key segments.\<close>

definition unspaced :: "string \<Rightarrow> string" where
  "unspaced s = filter (\<lambda>c. c \<noteq> CHR '' '') s"

text \<open>The characters of the training words: the lowercase letters and the end-of-word
  marker.\<close>

definition alphabet :: "char list" where
  "alphabet = ''abcdefghijklmnopqrstuvwxyz_''"

section \<open>Descriptions of the segmentation to compare the code with\<close>

text \<open>
  The scan as the specification words it, as a relation between the position
  \<open>start\<close>, the candidate \<open>end\<close>, the symbols emitted so far and the final output of the
  token: a match emits the substring, moves \<open>start\<close> to \<open>end\<close> and resets \<open>end\<close>; a
  mismatch takes one off \<open>end\<close>; when \<open>end\<close> has come down to \<open>start\<close> the unknown marker
  is emitted once and the scan of the token is over; when \<open>start\<close> has reached the length
  of the token the scan is over with nothing more emitted.
\<close>

inductive scan :: "string \<Rightarrow> string list \<Rightarrow> nat \<Rightarrow> nat \<Rightarrow> string list \<Rightarrow> string list \<Rightarrow> bool"
  for token :: string and vocabulary :: "string list" where
  scan_match:
    "start < length token \<Longrightarrow> start < end \<Longrightarrow> slice token start end \<in> set vocabulary \<Longrightarrow>
     scan token vocabulary end (length token) (emitted @ [slice token start end]) output \<Longrightarrow>
     scan token vocabulary start end emitted output"
| scan_shrink:
    "start < length token \<Longrightarrow> start < end \<Longrightarrow> slice token start end \<notin> set vocabulary \<Longrightarrow>
     scan token vocabulary start (end - 1) emitted output \<Longrightarrow>
     scan token vocabulary start end emitted output"
| scan_unknown:
    "start < length token \<Longrightarrow> end \<le> start \<Longrightarrow>
     scan token vocabulary start end emitted (emitted @ [''[UNK]''])"
| scan_consumed:
    "length token \<le> start \<Longrightarrow> scan token vocabulary start end emitted emitted"

text \<open>
  Greedy longest match, on the part of the token that is still to be segmented:
  \<open>longest_match vocabulary rest n\<close> is the length of the longest prefix of \<open>rest\<close>, of
  at least one and at most \<open>n\<close> characters, that is in the vocabulary, and 0 when there is
  none; \<open>greedy\<close> emits that prefix and goes on behind it, or emits the unknown marker
  for all that is left.
\<close>

fun longest_match :: "string list \<Rightarrow> string \<Rightarrow> nat \<Rightarrow> nat" where
  "longest_match vocabulary rest 0 = 0"
| "longest_match vocabulary rest (Suc n) =
     (if take (Suc n) rest \<in> set vocabulary then Suc n else longest_match vocabulary rest n)"

function greedy :: "string list \<Rightarrow> string \<Rightarrow> string list" where
  "greedy vocabulary rest =
     (if rest = [] then []
      else if longest_match vocabulary rest (length rest) = 0 then [''[UNK]'']
      else take (longest_match vocabulary rest (length rest)) rest
             # greedy vocabulary (drop (longest_match vocabulary rest (length rest)) rest))"
  by pat_completeness auto
termination
  by (relation "measure (\<lambda>(vocabulary, rest). length rest)") auto

declare greedy.simps [simp del]

text \<open>The loop of the code once more, as a total function: it serves the proofs, which
  show that it is what \<open>while_option\<close> computes.\<close>

function seg_run :: "string \<Rightarrow> string list \<Rightarrow> nat \<Rightarrow> nat \<Rightarrow> string list \<Rightarrow> nat \<times> nat \<times> string list" where
  "seg_run token vocabulary start end emitted =
     (if start < length token \<and> start < end then
        (if slice token start end \<in> set vocabulary
         then seg_run token vocabulary end (length token) (emitted @ [slice token start end])
         else seg_run token vocabulary start (end - 1) emitted)
      else (start, end, emitted))"
  by pat_completeness auto
termination
  by (relation "measures [\<lambda>(token, vocabulary, start, end, emitted). length token - start,
                          \<lambda>(token, vocabulary, start, end, emitted). end - start]") auto

declare seg_run.simps [simp del]

text \<open>What the code appends to \<open>outputs\<close> from the state in which the loop is left, and
  \<open>greedy\<close> with the first candidate bounded by \<open>n\<close> characters.\<close>

definition seg_result :: "string \<Rightarrow> nat \<times> nat \<times> string list \<Rightarrow> string list" where
  "seg_result token = (\<lambda>(start, end, emitted). if start < length token then emitted @ [''[UNK]''] else emitted)"

definition greedy_from :: "string list \<Rightarrow> string \<Rightarrow> nat \<Rightarrow> string list" where
  "greedy_from vocabulary rest n =
     (if rest = [] then []
      else if longest_match vocabulary rest n = 0 then [''[UNK]'']
      else take (longest_match vocabulary rest n) rest
             # greedy vocabulary (drop (longest_match vocabulary rest n) rest))"

section \<open>The two functions on a store\<close>

text \<open>
  \<open>merge_symbols\<close> appends to the list object it is handed and builds a new dictionary
  object; to speak about which objects a call changes, the objects live in a store, a
  list of objects in which a reference is an index and a new object takes the next free
  index.  \<open>heap_get\<close> reads a reference.  A method that an object does not have
  (\<open>append\<close> on a dictionary, \<open>items\<close> on a list) raises \<open>AttributeError\<close>; a reference
  outside the store does not exist in Python, and makes the same error here.  A call
  returns its result, or the error, together with the store it leaves.
\<close>

datatype obj = ListObj "string list" | DictObj "(string, int) dict" | PairsObj "(string \<times> string, int) dict"

type_synonym heap = "obj list"

definition heap_get :: "heap \<Rightarrow> nat \<Rightarrow> obj option" where
  "heap_get h r = (if r < length h then Some (h ! r) else None)"

text \<open>\<open>merge_symbols(max_freq_pair, token_freqs, symbols)\<close> on references: first
  \<open>symbols.append\<close>, then \<open>dict()\<close>, then the loop over \<open>token_freqs.items()\<close> that fills
  the new dictionary, which is returned.\<close>

definition merge_symbols_heap ::
  "string \<times> string \<Rightarrow> nat \<Rightarrow> nat \<Rightarrow> heap \<Rightarrow> (error + nat) \<times> heap" where
  "merge_symbols_heap max_freq_pair token_freqs_ref symbols_ref h =
     (case heap_get h symbols_ref of
        Some (ListObj syms) \<Rightarrow>
          (let h1 = h[symbols_ref := ListObj (syms @ [join '''' [fst max_freq_pair, snd max_freq_pair]])];
               new_ref = length h1;
               h2 = h1 @ [DictObj []]
           in (case heap_get h2 token_freqs_ref of
                 Some (DictObj tf) \<Rightarrow>
                   (Inr new_ref,
                    h2[new_ref := DictObj
                      (fold (\<lambda>(token, freq) new_token_freqs.
                               dict_set (replace token (join '' '' [fst max_freq_pair, snd max_freq_pair])
                                                       (join '''' [fst max_freq_pair, snd max_freq_pair]))
                                        freq new_token_freqs)
                         tf [])])
               | _ \<Rightarrow> (Inl AttributeError, h2)))
      | _ \<Rightarrow> (Inl AttributeError, h))"

text \<open>\<open>get_max_freq_pair(token_freqs)\<close> on a reference: the dictionary \<open>pairs\<close> is a new
  object, the only one the function writes to.\<close>

definition get_max_freq_pair_heap :: "nat \<Rightarrow> heap \<Rightarrow> (error + string \<times> string) \<times> heap" where
  "get_max_freq_pair_heap token_freqs_ref h =
     (let pairs_ref = length h;
          h1 = h @ [PairsObj []]
      in (case heap_get h1 token_freqs_ref of
            Some (DictObj tf) \<Rightarrow>
              (let pairs = fold (\<lambda>(token, freq) pairs.
                                   fold (\<lambda>p ps. dict_add p freq ps) (adjacent (split token)) pairs)
                             tf []
               in (max_key pairs, h1[pairs_ref := PairsObj pairs]))
          | _ \<Rightarrow> (Inl AttributeError, h1)))"

section \<open>Training\<close>

text \<open>The training loop: \<open>num_merges\<close> rounds of selection and merge.  The state holds
  the table, the vocabulary and the pairs printed so far; a \<open>ValueError\<close> of the
  selection ends the run.\<close>

record bpe_state =
  token_freqs :: "(string, int) dict"
  symbols :: "string list"
  merges :: "(string \<times> string) list"

fun train :: "nat \<Rightarrow> bpe_state \<Rightarrow> error + bpe_state" where
  "train 0 st = Inr st"
| "train (Suc n) st =
     (case get_max_freq_pair (token_freqs st) of
        Inl e \<Rightarrow> Inl e
      | Inr max_freq_pair \<Rightarrow>
          (case merge_symbols max_freq_pair (token_freqs st) (symbols st) of
             (new_token_freqs, symbols') \<Rightarrow>
               train n \<lparr>token_freqs = new_token_freqs, symbols = symbols',
                        merges = merges st @ [max_freq_pair]\<rparr>))"

definition initial_state :: "(string, int) dict \<Rightarrow> bpe_state" where
  "initial_state raw_token_freqs =
     \<lparr>token_freqs = init_token_freqs raw_token_freqs, symbols = symbols0, merges = []\<rparr>"

section \<open>Notions for the invariant of the training loop\<close>

text \<open>
  A run of a key is a stretch of its text that begins at the start of the key or behind a
  delimiter and ends at the end of the key or before a delimiter: a sequence of whole
  symbols.  A key is fully spaced when a delimiter stands between every two characters,
  as in the table the training starts from.  A key is well formed when its characters
  other than the delimiter are in the alphabet and no two delimiters follow each other.
  The invariant of the training loop says: the keys are well formed; two runs of keys
  that spell the same word are the same text (the same word is cut into symbols in one
  way only, wherever it stands); a run that spells a merged symbol has no delimiter
  left; and the vocabulary is the initial one followed by the merged symbols, without a
  repetition.
\<close>

definition run :: "string \<Rightarrow> string \<Rightarrow> bool" where
  "run K M \<longleftrightarrow> (\<exists>X Y. K = X @ M @ Y \<and> (X = [] \<or> last X = CHR '' '') \<and> (Y = [] \<or> hd Y = CHR '' ''))"

fun fully_spaced :: "string \<Rightarrow> bool" where
  "fully_spaced [] = True"
| "fully_spaced [c] = (c \<noteq> CHR '' '')"
| "fully_spaced (c # d # r) = (c \<noteq> CHR '' '' \<and> d = CHR '' '' \<and> r \<noteq> [] \<and> fully_spaced r)"

definition wf_key :: "string \<Rightarrow> bool" where
  "wf_key K \<longleftrightarrow> set (unspaced K) \<subseteq> set alphabet \<and> (\<forall>X Y. K \<noteq> X @ CHR '' '' # CHR '' '' # Y)"

definition bpe_inv :: "bpe_state \<Rightarrow> bool" where
  "bpe_inv st \<longleftrightarrow>
     (\<forall>K \<in> fst ` set (token_freqs st). wf_key K) \<and>
     (\<forall>K1 \<in> fst ` set (token_freqs st). \<forall>K2 \<in> fst ` set (token_freqs st). \<forall>M1 M2.
         run K1 M1 \<and> run K2 M2 \<and> unspaced M1 = unspaced M2 \<longrightarrow> M1 = M2) \<and>
     (\<forall>K \<in> fst ` set (token_freqs st). \<forall>M.
         run K M \<and> unspaced M \<in> set (map (\<lambda>(a, b). a @ b) (merges st)) \<longrightarrow> CHR '' '' \<notin> set M) \<and>
     symbols st = symbols0 @ map (\<lambda>(a, b). a @ b) (merges st) \<and>
     distinct (symbols st)"

chapter \<open>Properties\<close>

section \<open>Frequency mass under a merge\<close>

lemma dict_set_new: "k \<notin> fst ` set d \<Longrightarrow> dict_set k v d = d @ [(k, v)]"
  by (induction d) auto

lemma fold_dict_set_distinct:
  "distinct (map fst acc @ map (\<lambda>(t, f). g t) tf) \<Longrightarrow>
   fold (\<lambda>(t, f) new. dict_set (g t) f new) tf acc = acc @ map (\<lambda>(t, f). (g t, f)) tf"
proof (induction tf arbitrary: acc)
  case Nil
  then show ?case by simp
next
  case (Cons x tf)
  obtain t f where x: "x = (t, f)" by (cases x)
  from Cons.prems x have new: "g t \<notin> fst ` set acc" by auto
  from Cons.prems x have "distinct (map fst (acc @ [(g t, f)]) @ map (\<lambda>(t, f). g t) tf)"
    by auto
  from Cons.IH [OF this] show ?case
    using x new by (simp add: dict_set_new)
qed

lemma filter_replace:
  "filter P old = filter P new \<Longrightarrow> filter P (replace s old new) = filter P s"
proof (induction s old new rule: replace.induct)
  case (1 old new)
  then show ?case by auto
next
  case (2 c cs old new)
  show ?case
  proof (cases "old = []")
    case True
    with 2 show ?thesis by auto
  next
    case False
    show ?thesis
    proof (cases "prefix old (c # cs)")
      case True
      then obtain r where r: "c # cs = old @ r" by (auto simp: prefix_def)
      have step: "replace (c # cs) old new = new @ replace (drop (length old) (c # cs)) old new"
        using False True by simp
      have d: "drop (length old) (c # cs) = r" using r by simp
      have "filter P (replace r old new) = filter P r"
        using "2.IH"(2) [OF False True "2.prems"] d by simp
      moreover have "filter P (c # cs) = filter P old @ filter P r"
        using r by simp
      ultimately show ?thesis
        using step d "2.prems" by simp
    next
      case no: False
      with 2 False show ?thesis by simp
    qed
  qed
qed

lemma unspaced_replace_pair:
  "unspaced (replace token (join '' '' [a, b]) (join '''' [a, b])) = unspaced token"
  unfolding unspaced_def by (rule filter_replace) simp

lemma merge_symbols_fst:
  assumes "distinct (map (\<lambda>(token, freq). replace token (join '' '' [fst p, snd p]) (join '''' [fst p, snd p])) tf)"
  shows "fst (merge_symbols p tf syms) =
         map (\<lambda>(token, freq). (replace token (join '' '' [fst p, snd p]) (join '''' [fst p, snd p]), freq)) tf"
  using fold_dict_set_distinct [of "[]" "\<lambda>token. replace token (join '' '' [fst p, snd p]) (join '''' [fst p, snd p])" tf] assms
  by (simp add: merge_symbols_def Let_def)

lemma total_freq_map_keys: "total_freq (map (\<lambda>(t, f). (g t, f)) tf) = total_freq tf"
  by (induction tf) (auto simp: total_freq_def)

lemma unspaced_distinct_imp:
  "distinct (map (\<lambda>(t, f). unspaced t) tf) \<Longrightarrow> (\<And>t. unspaced (g t) = unspaced t) \<Longrightarrow>
   distinct (map (\<lambda>(t, f). g t) tf)"
proof -
  assume d: "distinct (map (\<lambda>(t, f). unspaced t) tf)" and g: "\<And>t. unspaced (g t) = unspaced t"
  have "map (\<lambda>(t, f). unspaced t) tf = map unspaced (map (\<lambda>(t, f). g t) tf)"
    by (induction tf) (auto simp: g)
  with d have "distinct (map unspaced (map (\<lambda>(t, f). g t) tf))" by simp
  then show ?thesis using distinct_map by blast
qed

lemma join_Cons: "join sep (x # xs) = (if xs = [] then x else x @ sep @ join sep xs)"
  by (cases xs) simp_all

lemma unspaced_join_chars: "unspaced (join '' '' (map (\<lambda>c. [c]) w)) = unspaced w"
  by (induction w) (simp_all add: join_Cons unspaced_def)

lemma unspaced_id: "CHR '' '' \<notin> set w \<Longrightarrow> unspaced w = w"
  by (auto simp: unspaced_def filter_id_conv)

lemma init_token_freqs_map:
  assumes "distinct (map fst raw)" and "\<forall>w \<in> fst ` set raw. CHR '' '' \<notin> set w"
  shows "init_token_freqs raw = map (\<lambda>(w, f). (join '' '' (map (\<lambda>c. [c]) w), f)) raw"
    and "distinct (map (\<lambda>(t, f). unspaced t) (init_token_freqs raw))"
proof -
  let ?g = "\<lambda>w. join '' '' (map (\<lambda>c. [c]) w)"
  have u: "map unspaced (map (\<lambda>(t, f). ?g t) raw) = map fst raw"
    using assms(2) by (induction raw) (auto simp: unspaced_join_chars unspaced_id)
  have "distinct (map unspaced (map (\<lambda>(t, f). ?g t) raw))"
    using assms(1) by (simp only: u)
  then have "distinct (map (\<lambda>(t, f). ?g t) raw)"
    using distinct_map by blast
  then show eq: "init_token_freqs raw = map (\<lambda>(w, f). (?g w, f)) raw"
    using fold_dict_set_distinct [of "[]" ?g raw] by (simp add: init_token_freqs_def)
  have "map (\<lambda>(t, f). unspaced t) (map (\<lambda>(w, f). (?g w, f)) raw) = map fst raw"
    using assms(2) by (induction raw) (auto simp: unspaced_join_chars unspaced_id)
  then show "distinct (map (\<lambda>(t, f). unspaced t) (init_token_freqs raw))"
    using assms(1) by (simp only: eq)
qed

lemma map_unspaced_keys:
  "(\<And>t. unspaced (g t) = unspaced t) \<Longrightarrow>
   map (\<lambda>(t, f). unspaced t) (map (\<lambda>(t, f). (g t, f)) tf) = map (\<lambda>(t, f). unspaced t) tf"
  by (induction tf) auto

lemma merge_symbols_unspaced:
  assumes "distinct (map (\<lambda>(t, f). unspaced t) tf)"
  shows "total_freq (fst (merge_symbols p tf syms)) = total_freq tf"
    and "distinct (map (\<lambda>(t, f). unspaced t) (fst (merge_symbols p tf syms)))"
proof -
  let ?g = "\<lambda>token. replace token (join '' '' [fst p, snd p]) (join '''' [fst p, snd p])"
  have "distinct (map (\<lambda>(t, f). ?g t) tf)"
    using assms by (rule unspaced_distinct_imp) (rule unspaced_replace_pair)
  then have eq: "fst (merge_symbols p tf syms) = map (\<lambda>(t, f). (?g t, f)) tf"
    by (rule merge_symbols_fst)
  show "total_freq (fst (merge_symbols p tf syms)) = total_freq tf"
    by (simp only: eq total_freq_map_keys)
  have "map (\<lambda>(t, f). unspaced t) (map (\<lambda>(t, f). (?g t, f)) tf) = map (\<lambda>(t, f). unspaced t) tf"
    by (rule map_unspaced_keys) (rule unspaced_replace_pair)
  with assms show "distinct (map (\<lambda>(t, f). unspaced t) (fst (merge_symbols p tf syms)))"
    by (simp only: eq)
qed

lemma train_total_freq:
  "distinct (map (\<lambda>(t, f). unspaced t) (token_freqs st)) \<Longrightarrow> train n st = Inr st' \<Longrightarrow>
   total_freq (token_freqs st') = total_freq (token_freqs st)"
proof (induction n arbitrary: st)
  case 0
  then show ?case by simp
next
  case (Suc n)
  from Suc.prems(2) obtain p where p: "get_max_freq_pair (token_freqs st) = Inr p"
    by (auto split: sum.splits)
  obtain tf' syms' where m: "merge_symbols p (token_freqs st) (symbols st) = (tf', syms')"
    by (cases "merge_symbols p (token_freqs st) (symbols st)")
  let ?st1 = "\<lparr>token_freqs = tf', symbols = syms', merges = merges st @ [p]\<rparr>"
  from Suc.prems(2) p m have run: "train n ?st1 = Inr st'" by simp
  from merge_symbols_unspaced [OF Suc.prems(1), of p "symbols st"] m
  have t: "total_freq tf' = total_freq (token_freqs st)"
    and d: "distinct (map (\<lambda>(t, f). unspaced t) tf')" by simp_all
  from Suc.IH [of ?st1] d run t show ?case by simp
qed

lemma map_of_dict_set: "map_of (dict_set k v d) = (map_of d)(k \<mapsto> v)"
  by (induction k v d rule: dict_set.induct) auto

lemma map_of_fold_dict_set:
  "map_of (fold (\<lambda>(t, f) new. dict_set (g t) f new) tf acc) =
   map_of acc ++ map_of (rev (map (\<lambda>(t, f). (g t, f)) tf))"
proof (induction tf arbitrary: acc)
  case Nil
  then show ?case by simp
next
  case (Cons x tf)
  obtain t f where x: "x = (t, f)" by (cases x)
  let ?m = "map_of (rev (map (\<lambda>(t, f). (g t, f)) tf))"
  have "fold (\<lambda>(t, f) new. dict_set (g t) f new) (x # tf) acc =
        fold (\<lambda>(t, f) new. dict_set (g t) f new) tf (dict_set (g t) f acc)"
    unfolding x by simp
  then have "map_of (fold (\<lambda>(t, f) new. dict_set (g t) f new) (x # tf) acc) =
        (map_of acc)(g t \<mapsto> f) ++ ?m"
    by (simp only: Cons.IH map_of_dict_set)
  also have "(map_of acc)(g t \<mapsto> f) = map_of acc ++ [g t \<mapsto> f]" by simp
  also have "(map_of acc ++ [g t \<mapsto> f]) ++ ?m = map_of acc ++ ([g t \<mapsto> f] ++ ?m)"
    by (simp add: map_add_assoc)
  also have "[g t \<mapsto> f] ++ ?m = map_of (rev (map (\<lambda>(t, f). (g t, f)) (x # tf)))"
    unfolding x by simp
  finally show ?case .
qed

lemma merge_symbols_map_of:
  "map_of (fst (merge_symbols (a, b) tf syms)) =
   map_of (rev (map (\<lambda>(token, freq). (replace token (join '' '' [a, b]) (join '''' [a, b]), freq)) tf))"
  using map_of_fold_dict_set [of "\<lambda>token. replace token (join '' '' [a, b]) (join '''' [a, b])" tf "[]"]
  by (simp add: merge_symbols_def Let_def)

text \<open>
  Claim C1, as the code has it.  \<open>merge_symbols\<close> stores each rewritten key with a plain
  assignment, so two keys that become the same text do not add up: the later frequency
  replaces the earlier one.  What holds is: whenever the rewritten keys are pairwise
  distinct, the sum of the frequencies is unchanged by \<open>merge_symbols\<close>; and in every
  training run that starts from the table built from distinct raw words without a space,
  after any number of merge rounds the sum equals the sum over the raw words (no two keys
  can collide there, since a key without its delimiters is always the raw word).  For
  every table, the frequency the new table holds for a key is the frequency of the last
  key of the old table that is rewritten to it.
\<close>

theorem merge_keeps_total_freq:
  "(distinct (map (\<lambda>(token, freq). replace token (join '' '' [a, b]) (join '''' [a, b])) tf) \<longrightarrow>
      total_freq (fst (merge_symbols (a, b) tf syms)) = total_freq tf) \<and>
   (distinct (map fst raw) \<and> (\<forall>w \<in> fst ` set raw. CHR '' '' \<notin> set w) \<and>
    train n (initial_state raw) = Inr st \<longrightarrow>
      total_freq (token_freqs st) = total_freq raw) \<and>
   map_of (fst (merge_symbols (a, b) tf syms)) =
     map_of (rev (map (\<lambda>(token, freq). (replace token (join '' '' [a, b]) (join '''' [a, b]), freq)) tf))"
proof (intro conjI impI)
  show "map_of (fst (merge_symbols (a, b) tf syms)) =
     map_of (rev (map (\<lambda>(token, freq). (replace token (join '' '' [a, b]) (join '''' [a, b]), freq)) tf))"
    by (rule merge_symbols_map_of)
next
  assume "distinct (map (\<lambda>(token, freq). replace token (join '' '' [a, b]) (join '''' [a, b])) tf)"
  then show "total_freq (fst (merge_symbols (a, b) tf syms)) = total_freq tf"
    using merge_symbols_fst [of "(a, b)" tf syms] by (simp add: total_freq_map_keys)
next
  assume h: "distinct (map fst raw) \<and> (\<forall>w \<in> fst ` set raw. CHR '' '' \<notin> set w) \<and>
    train n (initial_state raw) = Inr st"
  then have i: "init_token_freqs raw = map (\<lambda>(w, f). (join '' '' (map (\<lambda>c. [c]) w), f)) raw"
    and d: "distinct (map (\<lambda>(t, f). unspaced t) (init_token_freqs raw))"
    using init_token_freqs_map [of raw] by simp_all
  from d h have "total_freq (token_freqs st) = total_freq (token_freqs (initial_state raw))"
    using train_total_freq [of "initial_state raw" n st] by (simp add: initial_state_def)
  also have "\<dots> = total_freq raw"
    by (simp add: initial_state_def i total_freq_map_keys)
  finally show "total_freq (token_freqs st) = total_freq raw" .
qed

text \<open>The hypotheses of both parts hold on a two-word corpus.\<close>

theorem merge_keeps_total_freq_witness:
  "distinct (map (\<lambda>(token, freq). replace token (join '' '' [''t'', ''a'']) (join '''' [''t'', ''a'']))
       [(''f a s t _'', 4::int), (''t a l l _'', 5)]) \<and>
   total_freq (fst (merge_symbols (''t'', ''a'') [(''f a s t _'', 4), (''t a l l _'', 5)] symbols0)) = 9 \<and>
   distinct (map fst [(''fast_'', 4::int), (''tall_'', 5)]) \<and>
   train 3 (initial_state [(''fast_'', 4), (''tall_'', 5)]) =
     Inr \<lparr>token_freqs = [(''f a s t _'', 4), (''tall _'', 5)],
          symbols = symbols0 @ [''ta'', ''tal'', ''tall''],
          merges = [(''t'', ''a''), (''ta'', ''l''), (''tal'', ''l'')]\<rparr> \<and>
   total_freq [(''f a s t _'', 4), (''tall _'', 5)] = 9"
proof -
  have d1: "distinct (map (\<lambda>(token, freq). replace token (join '' '' [''t'', ''a'']) (join '''' [''t'', ''a'']))
       [(''f a s t _'', 4::int), (''t a l l _'', 5)])" by simp
  have d2: "distinct (map fst [(''fast_'', 4::int), (''tall_'', 5)])" by simp
  have d3: "\<forall>w \<in> fst ` set [(''fast_'', 4::int), (''tall_'', 5)]. CHR '' '' \<notin> set w" by simp
  have run: "train 3 (initial_state [(''fast_'', 4), (''tall_'', 5)]) =
     Inr \<lparr>token_freqs = [(''f a s t _'', 4), (''tall _'', 5)],
          symbols = symbols0 @ [''ta'', ''tal'', ''tall''],
          merges = [(''t'', ''a''), (''ta'', ''l''), (''tal'', ''l'')]\<rparr>"
    by code_simp
  have t: "total_freq [(''fast_'', 4::int), (''tall_'', 5)] = 9"
    "total_freq [(''f a s t _'', 4::int), (''t a l l _'', 5)] = 9" by (simp_all add: total_freq_def)
  from merge_keeps_total_freq [of "''t''" "''a''" "[(''f a s t _'', 4), (''t a l l _'', 5)]" symbols0
      "[(''fast_'', 4), (''tall_'', 5)]" 3
      "\<lparr>token_freqs = [(''f a s t _'', 4), (''tall _'', 5)],
        symbols = symbols0 @ [''ta'', ''tal'', ''tall''],
        merges = [(''t'', ''a''), (''ta'', ''l''), (''tal'', ''l'')]\<rparr>"] d1 d2 d3 run t
  show ?thesis by simp
qed

text \<open>
  The claim as it is stated, for every table: the keys \<open>a b\<close> (frequency 1) and \<open>ab\<close>
  (frequency 2) both become \<open>ab\<close> under the pair (a, b), and the new table holds the
  single entry \<open>ab\<close>: 2, so the sum drops from 3 to 2.  The pair (a, b) is the one that
  \<open>get_max_freq_pair\<close> selects on this table.
\<close>

theorem merge_collision_counterexample:
  "get_max_freq_pair [(''a b'', 1), (''ab'', 2)] = Inr (''a'', ''b'') \<and>
   fst (merge_symbols (''a'', ''b'') [(''a b'', 1), (''ab'', 2)] symbols0) = [(''ab'', 2)] \<and>
   total_freq (fst (merge_symbols (''a'', ''b'') [(''a b'', 1), (''ab'', 2)] symbols0))
     \<noteq> total_freq [(''a b'', 1), (''ab'', 2)]"
  by code_simp

section \<open>The pair totals of \<open>get_max_freq_pair\<close>\<close>

lemma dict_get_dict_add: "dict_get (dict_add k v d) q = dict_get d q + (if q = k then v else 0)"
  by (induction k v d rule: dict_add.induct) auto

lemma keys_dict_add: "fst ` set (dict_add k v d) = insert k (fst ` set d)"
  by (induction k v d rule: dict_add.induct) auto

lemma distinct_dict_add: "distinct (map fst d) \<Longrightarrow> distinct (map fst (dict_add k v d))"
  by (induction k v d rule: dict_add.induct) (auto simp: keys_dict_add)

lemma dict_get_fold_add:
  "dict_get (fold (\<lambda>p ps. dict_add p f ps) qs d) q = dict_get d q + f * int (count_list qs q)"
  by (induction qs arbitrary: d) (auto simp: dict_get_dict_add algebra_simps)

lemma keys_fold_add: "fst ` set (fold (\<lambda>p ps. dict_add p f ps) qs d) = fst ` set d \<union> set qs"
  by (induction qs arbitrary: d) (auto simp: keys_dict_add)

lemma distinct_fold_add:
  "distinct (map fst d) \<Longrightarrow> distinct (map fst (fold (\<lambda>p ps. dict_add p f ps) qs d))"
  by (induction qs arbitrary: d) (auto simp: distinct_dict_add)

lemma dict_get_count_fold:
  "dict_get (fold (\<lambda>(token, freq) pairs. fold (\<lambda>p ps. dict_add p freq ps) (adjacent (split token)) pairs) tf acc) q =
     dict_get acc q + (\<Sum>(token, freq) \<leftarrow> tf. freq * int (count_list (adjacent (split token)) q))"
  by (induction tf arbitrary: acc) (auto simp: dict_get_fold_add)

lemma keys_count_fold:
  "fst ` set (fold (\<lambda>(token, freq) pairs. fold (\<lambda>p ps. dict_add p freq ps) (adjacent (split token)) pairs) tf acc) =
     fst ` set acc \<union> (\<Union>(token, freq) \<in> set tf. set (adjacent (split token)))"
proof (induction tf arbitrary: acc)
  case Nil
  then show ?case by simp
next
  case (Cons x tf)
  obtain token freq where x: "x = (token, freq)" by (cases x)
  show ?case
    unfolding x by (simp add: Cons.IH keys_fold_add Un_assoc)
qed

lemma distinct_count_fold:
  "distinct (map fst acc) \<Longrightarrow>
   distinct (map fst (fold (\<lambda>(token, freq) pairs. fold (\<lambda>p ps. dict_add p freq ps) (adjacent (split token)) pairs) tf acc))"
  by (induction tf arbitrary: acc) (auto simp: distinct_fold_add)

lemma dict_get_count_pairs:
  "dict_get (count_pairs tf) q = (\<Sum>(token, freq) \<leftarrow> tf. freq * int (count_list (adjacent (split token)) q))"
  by (simp add: count_pairs_def dict_get_count_fold)

lemma keys_count_pairs:
  "fst ` set (count_pairs tf) = (\<Union>(token, freq) \<in> set tf. set (adjacent (split token)))"
  by (simp add: count_pairs_def keys_count_fold)

lemma distinct_count_pairs: "distinct (map fst (count_pairs tf))"
  by (simp add: count_pairs_def distinct_count_fold)

lemma in_adjacent_iff:
  "(a, b) \<in> set (adjacent xs) \<longleftrightarrow> (\<exists>i. i + 1 < length xs \<and> xs ! i = a \<and> xs ! (i + 1) = b)"
proof
  assume "(a, b) \<in> set (adjacent xs)"
  then obtain i where "i < length xs - 1" "xs ! i = a" "xs ! (i + 1) = b"
    by (auto simp: adjacent_def)
  then have "i + 1 < length xs \<and> xs ! i = a \<and> xs ! (i + 1) = b" by simp
  then show "\<exists>i. i + 1 < length xs \<and> xs ! i = a \<and> xs ! (i + 1) = b" ..
next
  assume "\<exists>i. i + 1 < length xs \<and> xs ! i = a \<and> xs ! (i + 1) = b"
  then obtain i where i: "i + 1 < length xs" "xs ! i = a" "xs ! (i + 1) = b" by blast
  then have "i \<in> set [0..<length xs - 1]" by simp
  then have "(xs ! i, xs ! (i + 1)) \<in> set (adjacent xs)"
    unfolding adjacent_def by (simp only: set_map image_eqI)
  with i show "(a, b) \<in> set (adjacent xs)" by simp
qed

lemma adjacent_empty_iff: "adjacent xs = [] \<longleftrightarrow> length xs < 2"
  by (auto simp: adjacent_def)

text \<open>
  Claim C6, as the code has it.  The loop adds the frequency of a key once for every
  position at which the pair stands in that key, so a key that holds the pair several
  times counts several times: the total of an ordered pair (a, b) is the sum, over the
  keys of the table, of the frequency of the key times the number of adjacent
  occurrences of (a, b) among its symbols.  It is the summed frequency of the keys
  holding the pair when no key holds it twice.  Every pair that is counted stands at two
  neighbouring positions of the symbols of one single key; no pair is made of symbols of
  two keys.
\<close>

theorem pair_totals:
  "dict_get (count_pairs tf) (a, b) =
     (\<Sum>(token, freq) \<leftarrow> tf. freq * int (count_list (adjacent (split token)) (a, b))) \<and>
   ((a, b) \<in> fst ` set (count_pairs tf) \<longleftrightarrow>
     (\<exists>(token, freq) \<in> set tf. \<exists>i. i + 1 < length (split token) \<and>
         split token ! i = a \<and> split token ! (i + 1) = b))"
proof
  show "dict_get (count_pairs tf) (a, b) =
     (\<Sum>(token, freq) \<leftarrow> tf. freq * int (count_list (adjacent (split token)) (a, b)))"
    by (rule dict_get_count_pairs)
  show "(a, b) \<in> fst ` set (count_pairs tf) \<longleftrightarrow>
     (\<exists>(token, freq) \<in> set tf. \<exists>i. i + 1 < length (split token) \<and>
         split token ! i = a \<and> split token ! (i + 1) = b)"
  proof -
    have "(a, b) \<in> fst ` set (count_pairs tf) \<longleftrightarrow>
          (\<exists>(token, freq) \<in> set tf. (a, b) \<in> set (adjacent (split token)))"
      unfolding keys_count_pairs by blast
    then show ?thesis by (simp only: in_adjacent_iff)
  qed
qed

text \<open>
  The claim as it is stated, each word that holds the pair counting once: in the table
  with the single key \<open>a a a\<close> of frequency 1 the pair (a, a) gets the total 2, and the
  summed frequency of the keys holding (a, a) is 1.
\<close>

theorem pair_total_counterexample:
  "dict_get (count_pairs [(''a a a'', 1)]) (''a'', ''a'') \<noteq>
   sum_list (map snd (filter (\<lambda>(token, freq). (''a'', ''a'') \<in> set (adjacent (split token)))
                        [(''a a a'', 1)]))"
  by code_simp

section \<open>The selection of \<open>get_max_freq_pair\<close>\<close>

lemma max_from_in: "max_from best d \<in> insert best (set d)"
  by (induction best d rule: max_from.induct) auto

lemma max_from_ge_best: "snd best \<le> snd (max_from best d)"
  by (induction best d rule: max_from.induct) (auto split: if_splits)

lemma max_from_ge_all: "(k, v) \<in> set d \<Longrightarrow> v \<le> snd (max_from best d)"
proof (induction best d rule: max_from.induct)
  case (1 best)
  then show ?case by simp
next
  case (2 best k' v' d)
  then show ?case
    using max_from_ge_best [of "(k', v')" d] max_from_ge_best [of best d]
    by (auto split: if_splits)
qed

lemma dict_get_distinct: "distinct (map fst d) \<Longrightarrow> (k, v) \<in> set d \<Longrightarrow> dict_get d k = v"
proof (induction d)
  case Nil
  then show ?case by simp
next
  case (Cons x d)
  obtain k' v' where x: "x = (k', v')" by (cases x)
  show ?case
  proof (cases "k' = k")
    case True
    with Cons.prems x have "(k, v) \<notin> set d" by (auto simp: image_iff)
    with Cons.prems x True show ?thesis by simp
  next
    case False
    with Cons x show ?thesis by simp
  qed
qed

lemma max_key_maximal:
  assumes "d \<noteq> []" and "distinct (map fst d)"
  shows "\<exists>k. max_key d = Inr k \<and> k \<in> fst ` set d \<and> (\<forall>q \<in> fst ` set d. dict_get d q \<le> dict_get d k)"
proof -
  from assms(1) obtain kv d' where d: "d = kv # d'" by (cases d) auto
  let ?m = "max_from kv d'"
  have m_in: "?m \<in> set d" using max_from_in [of kv d'] d by auto
  then have get_m: "dict_get d (fst ?m) = snd ?m"
    using dict_get_distinct [OF assms(2), of "fst ?m" "snd ?m"] by simp
  have "dict_get d q \<le> snd ?m" if "q \<in> fst ` set d" for q
  proof -
    from that obtain v where qv: "(q, v) \<in> set d" by auto
    then have "dict_get d q = v" using dict_get_distinct [OF assms(2)] by simp
    moreover have "v \<le> snd ?m"
      using qv d max_from_ge_best [of kv d'] max_from_ge_all [of q v d' kv] by auto
    ultimately show ?thesis by simp
  qed
  then have "\<forall>q \<in> fst ` set d. dict_get d q \<le> dict_get d (fst ?m)"
    using get_m by simp
  moreover have "fst ?m \<in> fst ` set d" using m_in by (rule imageI)
  moreover have "max_key d = Inr (fst ?m)" using d by simp
  ultimately show ?thesis by blast
qed

lemma count_pairs_empty_iff:
  "count_pairs tf = [] \<longleftrightarrow> (\<forall>(token, freq) \<in> set tf. length (split token) < 2)"
proof -
  have "count_pairs tf = [] \<longleftrightarrow> fst ` set (count_pairs tf) = {}" by simp
  also have "\<dots> \<longleftrightarrow> (\<forall>x \<in> set tf. set (adjacent (split (fst x))) = {})"
    unfolding keys_count_pairs by (simp add: case_prod_unfold)
  also have "\<dots> \<longleftrightarrow> (\<forall>x \<in> set tf. length (split (fst x)) < 2)"
    by (simp add: adjacent_empty_iff)
  finally show ?thesis by (simp add: case_prod_unfold)
qed

text \<open>
  Claim C7.  When no key of the table splits into two or more symbols, the dictionary of
  pairs is empty and \<open>max\<close> raises \<open>ValueError\<close>: \<open>get_max_freq_pair\<close> fails.  When
  some key has at least two symbols it returns a pair, one of the counted pairs, and no
  counted pair has a greater total.
\<close>

theorem get_max_freq_pair_cases:
  "((\<forall>(token, freq) \<in> set tf. length (split token) < 2) \<longrightarrow>
      get_max_freq_pair tf = Inl ValueError) \<and>
   ((\<exists>(token, freq) \<in> set tf. 2 \<le> length (split token)) \<longrightarrow>
      (\<exists>p. get_max_freq_pair tf = Inr p \<and> p \<in> fst ` set (count_pairs tf) \<and>
           (\<forall>q \<in> fst ` set (count_pairs tf).
               dict_get (count_pairs tf) q \<le> dict_get (count_pairs tf) p)))"
proof (intro conjI impI)
  assume "\<forall>(token, freq) \<in> set tf. length (split token) < 2"
  then have "count_pairs tf = []"
    by (simp only: count_pairs_empty_iff)
  then show "get_max_freq_pair tf = Inl ValueError"
    by (simp add: get_max_freq_pair_def)
next
  assume "\<exists>(token, freq) \<in> set tf. 2 \<le> length (split token)"
  then have "\<not> (\<forall>(token, freq) \<in> set tf. length (split token) < 2)"
    by (simp add: case_prod_unfold not_less)
  then have "count_pairs tf \<noteq> []"
    unfolding count_pairs_empty_iff .
  from max_key_maximal [OF this distinct_count_pairs]
  show "\<exists>p. get_max_freq_pair tf = Inr p \<and> p \<in> fst ` set (count_pairs tf) \<and>
           (\<forall>q \<in> fst ` set (count_pairs tf).
               dict_get (count_pairs tf) q \<le> dict_get (count_pairs tf) p)"
    by (simp add: get_max_freq_pair_def)
qed

text \<open>Both cases occur: a table of one-symbol and empty keys, and a table of two words.\<close>

theorem get_max_freq_pair_cases_witness:
  "get_max_freq_pair [(''fast_'', 4), (''_'', 1), ('''', 2)] = Inl ValueError \<and>
   (\<exists>p. get_max_freq_pair [(''f a s t _'', 4), (''t a l l _'', 5)] = Inr p \<and>
        p \<in> fst ` set (count_pairs [(''f a s t _'', 4), (''t a l l _'', 5)]))"
proof -
  have h1: "\<forall>(token, freq) \<in> set [(''fast_'', 4::int), (''_'', 1), ('''', 2)]. length (split token) < 2"
    by code_simp
  have h2: "\<exists>(token, freq) \<in> set [(''f a s t _'', 4::int), (''t a l l _'', 5)]. 2 \<le> length (split token)"
    by code_simp
  have "get_max_freq_pair [(''fast_'', 4), (''_'', 1), ('''', 2)] = Inl ValueError"
    using get_max_freq_pair_cases [THEN conjunct1, THEN mp, OF h1] .
  moreover have "\<exists>p. get_max_freq_pair [(''f a s t _'', 4), (''t a l l _'', 5)] = Inr p \<and>
        p \<in> fst ` set (count_pairs [(''f a s t _'', 4), (''t a l l _'', 5)])"
    using get_max_freq_pair_cases [THEN conjunct2, THEN mp, OF h2] by blast
  ultimately show ?thesis ..
qed

section \<open>Growth of the vocabulary\<close>

lemma split_from_nonempty: "s \<in> set (split_from cur rest) \<Longrightarrow> s \<noteq> []"
  by (induction cur rest rule: split_from.induct) (auto split: if_splits)

lemma split_nonempty: "s \<in> set (split token) \<Longrightarrow> s \<noteq> []"
  unfolding split_def by (rule split_from_nonempty)

lemma adjacent_subset: "(a, b) \<in> set (adjacent xs) \<Longrightarrow> a \<in> set xs \<and> b \<in> set xs"
  by (auto simp: adjacent_def)

lemma max_key_in: "max_key d = Inr k \<Longrightarrow> k \<in> fst ` set d"
proof (cases d)
  case Nil
  assume "max_key d = Inr k"
  with Nil show ?thesis by simp
next
  case (Cons kv d')
  assume "max_key d = Inr k"
  with Cons have "k = fst (max_from kv d')" by simp
  moreover have "max_from kv d' \<in> set d" using max_from_in [of kv d'] Cons by auto
  ultimately show ?thesis by (simp add: image_iff) blast
qed

lemma get_max_freq_pair_nonempty:
  assumes "get_max_freq_pair tf = Inr (a, b)"
  shows "a \<noteq> [] \<and> b \<noteq> []"
proof -
  from assms have "(a, b) \<in> fst ` set (count_pairs tf)"
    unfolding get_max_freq_pair_def by (rule max_key_in)
  then obtain token freq where "(token, freq) \<in> set tf" and adj: "(a, b) \<in> set (adjacent (split token))"
    unfolding keys_count_pairs by blast
  from adj have "a \<in> set (split token) \<and> b \<in> set (split token)"
    by (rule adjacent_subset)
  then show ?thesis using split_nonempty by blast
qed

lemma merge_symbols_snd: "snd (merge_symbols (a, b) tf syms) = syms @ [a @ b]"
  by (simp add: merge_symbols_def Let_def)

lemma train_Suc_Inr:
  assumes "train (Suc n) st = Inr st'"
  obtains a b where "get_max_freq_pair (token_freqs st) = Inr (a, b)"
    and "train n \<lparr>token_freqs = fst (merge_symbols (a, b) (token_freqs st) (symbols st)),
                  symbols = symbols st @ [a @ b], merges = merges st @ [(a, b)]\<rparr> = Inr st'"
proof -
  from assms obtain p where p: "get_max_freq_pair (token_freqs st) = Inr p"
    by (auto split: sum.splits)
  obtain a b where ab: "p = (a, b)" by (cases p)
  obtain tf' syms' where m: "merge_symbols (a, b) (token_freqs st) (symbols st) = (tf', syms')"
    by (cases "merge_symbols (a, b) (token_freqs st) (symbols st)")
  then have "syms' = symbols st @ [a @ b]" using merge_symbols_snd [of a b "token_freqs st" "symbols st"] by simp
  with assms p ab m that show ?thesis by simp
qed

lemma train_symbols:
  "train n st = Inr st' \<Longrightarrow>
   \<exists>ps. length ps = n \<and> merges st' = merges st @ ps \<and>
        symbols st' = symbols st @ map (\<lambda>(a, b). a @ b) ps \<and>
        (\<forall>(a, b) \<in> set ps. a \<noteq> [] \<and> b \<noteq> [])"
proof (induction n arbitrary: st)
  case 0
  then show ?case by simp
next
  case (Suc n)
  from Suc.prems obtain a b where g: "get_max_freq_pair (token_freqs st) = Inr (a, b)"
    and run: "train n \<lparr>token_freqs = fst (merge_symbols (a, b) (token_freqs st) (symbols st)),
                  symbols = symbols st @ [a @ b], merges = merges st @ [(a, b)]\<rparr> = Inr st'"
    by (rule train_Suc_Inr)
  from Suc.IH [OF run] obtain ps where ps: "length ps = n"
    "merges st' = (merges st @ [(a, b)]) @ ps"
    "symbols st' = (symbols st @ [a @ b]) @ map (\<lambda>(a, b). a @ b) ps"
    "\<forall>(a, b) \<in> set ps. a \<noteq> [] \<and> b \<noteq> []"
    by auto
  from get_max_freq_pair_nonempty [OF g] have ne: "a \<noteq> [] \<and> b \<noteq> []" .
  have "length ((a, b) # ps) = Suc n \<and> merges st' = merges st @ ((a, b) # ps) \<and>
        symbols st' = symbols st @ map (\<lambda>(a, b). a @ b) ((a, b) # ps) \<and>
        (\<forall>(a, b) \<in> set ((a, b) # ps). a \<noteq> [] \<and> b \<noteq> [])"
    using ps ne by simp
  then show ?case by blast
qed

lemma train_add:
  "train (m + n) st = (case train m st of Inl e \<Rightarrow> Inl e | Inr st1 \<Rightarrow> train n st1)"
  by (induction m arbitrary: st) (auto split: sum.splits prod.splits)

subsection \<open>Replacement and the delimiters that survive it\<close>

lemma replace_prefix: "old \<noteq> [] \<Longrightarrow> replace (old @ R) old new = new @ replace R old new"
proof -
  assume ne: "old \<noteq> []"
  then obtain c cs where c: "old @ R = c # cs" by (cases "old @ R") auto
  have p: "prefix old (c # cs)" using c by (metis prefixI)
  have d: "drop (length old) (c # cs) = R" using c by (metis append_eq_conv_conj)
  have "replace (c # cs) old new = new @ replace (drop (length old) (c # cs)) old new"
    using ne p by simp
  then show ?thesis by (simp only: c d)
qed

lemma replace_self: "old \<noteq> [] \<Longrightarrow> replace old old new = new"
  using replace_prefix [of old "[]" new] by simp

lemma replace_no_occurrence:
  "CHR '' '' \<in> set old \<Longrightarrow> CHR '' '' \<notin> set M \<Longrightarrow> replace M old new = M"
proof (induction M)
  case Nil
  then show ?case by auto
next
  case (Cons c cs)
  have "\<not> prefix old (c # cs)"
  proof
    assume "prefix old (c # cs)"
    then have "set old \<subseteq> set (c # cs)" by (rule set_mono_prefix)
    with Cons.prems show False by blast
  qed
  moreover have "old \<noteq> []" using Cons.prems by auto
  ultimately show ?case using Cons by simp
qed

lemma append_eq_space_split:
  assumes "new @ R = X' @ CHR '' '' # Z'" and "CHR '' '' \<notin> set new"
  shows "\<exists>X''. X' = new @ X'' \<and> R = X'' @ CHR '' '' # Z'"
proof -
  from assms(1) consider us where "new = X' @ us" "us @ R = CHR '' '' # Z'"
    | us where "new @ us = X'" "R = us @ CHR '' '' # Z'"
    by (auto simp: append_eq_append_conv2)
  then show ?thesis
  proof cases
    case 1
    show ?thesis
    proof (cases us)
      case Nil
      with 1 show ?thesis by auto
    next
      case (Cons u us')
      with 1 have "u = CHR '' ''" by simp
      with 1 Cons assms(2) show ?thesis by auto
    qed
  next
    case 2
    then show ?thesis by auto
  qed
qed

lemma replace_space_split:
  "old \<noteq> [] \<Longrightarrow> CHR '' '' \<notin> set new \<Longrightarrow> replace K old new = X' @ CHR '' '' # Z' \<Longrightarrow>
   \<exists>X Z. K = X @ CHR '' '' # Z \<and> replace X old new = X' \<and> replace Z old new = Z'"
proof (induction K old new arbitrary: X' rule: replace.induct)
  case (1 old new)
  then show ?case by simp
next
  case (2 c cs old new)
  note ne = \<open>old \<noteq> []\<close>
  show ?case
  proof (cases "prefix old (c # cs)")
    case True
    then obtain R where R: "c # cs = old @ R" by (auto simp: prefix_def)
    then have d: "drop (length old) (c # cs) = R" by simp
    have "replace (c # cs) old new = new @ replace R old new"
      using ne True d by simp
    with "2.prems"(3) have "new @ replace R old new = X' @ CHR '' '' # Z'" by simp
    from append_eq_space_split [OF this "2.prems"(2)]
    obtain X'' where X'': "X' = new @ X''" "replace R old new = X'' @ CHR '' '' # Z'" by blast
    from "2.IH"(2) [OF ne True ne "2.prems"(2)] X''(2) d
    obtain X0 Z0 where "R = X0 @ CHR '' '' # Z0" "replace X0 old new = X''" "replace Z0 old new = Z'"
      by auto
    then have "c # cs = (old @ X0) @ CHR '' '' # Z0 \<and> replace (old @ X0) old new = X' \<and>
               replace Z0 old new = Z'"
      using R X''(1) ne by (simp add: replace_prefix)
    then show ?thesis by blast
  next
    case False
    then have step: "replace (c # cs) old new = c # replace cs old new"
      using ne by simp
    show ?thesis
    proof (cases X')
      case Nil
      with "2.prems"(3) step have "c = CHR '' ''" "replace cs old new = Z'" by simp_all
      then have "c # cs = [] @ CHR '' '' # cs \<and> replace [] old new = X' \<and> replace cs old new = Z'"
        using Nil ne by simp
      then show ?thesis by blast
    next
      case (Cons x X'')
      with "2.prems"(3) step have x: "x = c" and r: "replace cs old new = X'' @ CHR '' '' # Z'"
        by simp_all
      from "2.IH"(3) [OF ne False ne "2.prems"(2) r]
      obtain X0 Z0 where 0: "cs = X0 @ CHR '' '' # Z0" "replace X0 old new = X''" "replace Z0 old new = Z'"
        by blast
      have "\<not> prefix old (c # X0)"
      proof
        assume "prefix old (c # X0)"
        then have "prefix old ((c # X0) @ CHR '' '' # Z0)" by (rule prefix_prefix)
        with False 0(1) show False by simp
      qed
      then have "replace (c # X0) old new = c # replace X0 old new" using ne by simp
      with 0 Cons x have "c # cs = (c # X0) @ CHR '' '' # Z0 \<and> replace (c # X0) old new = X' \<and>
               replace Z0 old new = Z'" by simp
      then show ?thesis by blast
    qed
  qed
qed

lemma run_self: "run K K"
  unfolding run_def by (rule exI [of _ "[]"], rule exI [of _ "[]"]) simp

lemma run_replace:
  assumes "old \<noteq> []" and "CHR '' '' \<notin> set new" and "run (replace K old new) M'"
  shows "\<exists>M. run K M \<and> M' = replace M old new"
proof -
  from assms(3) obtain X' Y' where k: "replace K old new = X' @ M' @ Y'"
    and bx: "X' = [] \<or> last X' = CHR '' ''" and by': "Y' = [] \<or> hd Y' = CHR '' ''"
    by (auto simp: run_def)
  have right: "\<exists>M. run Z M \<and> M' = replace M old new"
    if z: "replace Z old new = M' @ Y'" for Z
  proof (cases Y')
    case Nil
    with z have "run Z Z \<and> M' = replace Z old new" by (simp add: run_self)
    then show ?thesis by blast
  next
    case (Cons y Y'')
    with by' have "y = CHR '' ''" by simp
    with z Cons have "replace Z old new = M' @ CHR '' '' # Y''" by simp
    from replace_space_split [OF assms(1,2) this]
    obtain M Z1 where "Z = M @ CHR '' '' # Z1" "replace M old new = M'" by blast
    then have "Z = [] @ M @ (CHR '' '' # Z1)" by simp
    then have "run Z M" unfolding run_def by (metis list.sel(1))
    with \<open>replace M old new = M'\<close> show ?thesis by blast
  qed
  show ?thesis
  proof (cases "X' = []")
    case True
    with k right [of K] show ?thesis by simp
  next
    case False
    with bx obtain X'' where X'': "X' = X'' @ [CHR '' '']"
      by (metis append_butlast_last_id)
    with k have "replace K old new = X'' @ CHR '' '' # (M' @ Y')" by simp
    from replace_space_split [OF assms(1,2) this]
    obtain X0 Z0 where 0: "K = X0 @ CHR '' '' # Z0" "replace Z0 old new = M' @ Y'" by blast
    from right [OF 0(2)] obtain M where M: "run Z0 M" "M' = replace M old new" by blast
    from M(1) obtain X1 Y1 where "Z0 = X1 @ M @ Y1" "Y1 = [] \<or> hd Y1 = CHR '' ''"
      "X1 = [] \<or> last X1 = CHR '' ''" by (auto simp: run_def)
    then have "K = (X0 @ CHR '' '' # X1) @ M @ Y1 \<and> last (X0 @ CHR '' '' # X1) = CHR '' '' \<and>
               (Y1 = [] \<or> hd Y1 = CHR '' '')"
      using 0(1) by auto
    then have "run K M" unfolding run_def by blast
    with M(2) show ?thesis by blast
  qed
qed

subsection \<open>Keys with a delimiter between every two characters\<close>

lemma fully_spaced_space_Cons: "\<not> fully_spaced (CHR '' '' # Z)"
  by (cases Z) simp_all

lemma join_chars_nonempty: "w \<noteq> [] \<Longrightarrow> join '' '' (map (\<lambda>c. [c]) w) \<noteq> []"
  by (cases w) (simp_all add: join_Cons)

lemma fully_spaced_join_chars:
  "CHR '' '' \<notin> set w \<Longrightarrow> fully_spaced (join '' '' (map (\<lambda>c. [c]) w))"
proof (induction w)
  case Nil
  then show ?case by simp
next
  case (Cons c w)
  then show ?case
    by (cases "w = []") (auto simp: join_Cons join_chars_nonempty)
qed

lemma fully_spaced_unspaced_nonempty: "fully_spaced r \<Longrightarrow> r \<noteq> [] \<Longrightarrow> unspaced r \<noteq> []"
  by (induction r rule: fully_spaced.induct) (simp_all add: unspaced_def)

lemma fully_spaced_eq: "fully_spaced M \<Longrightarrow> M = join '' '' (map (\<lambda>c. [c]) (unspaced M))"
proof (induction M rule: fully_spaced.induct)
  case 1
  then show ?case by (simp add: unspaced_def)
next
  case (2 c)
  then show ?case by (simp add: unspaced_def)
next
  case (3 c d r)
  then have c: "c \<noteq> CHR '' ''" and d: "d = CHR '' ''" and r: "r \<noteq> []" "fully_spaced r" by simp_all
  from r have "unspaced r \<noteq> []" by (simp add: fully_spaced_unspaced_nonempty)
  moreover have "unspaced (c # d # r) = c # unspaced r" using c d by (simp add: unspaced_def)
  moreover have "r = join '' '' (map (\<lambda>c. [c]) (unspaced r))" using "3.IH" r(2) by simp
  ultimately show ?case using d by (simp add: join_Cons)
qed

lemma fully_spaced_prefix:
  "fully_spaced (M @ Y) \<Longrightarrow> Y = [] \<or> hd Y = CHR '' '' \<Longrightarrow> fully_spaced M"
proof (induction M rule: fully_spaced.induct)
  case 1
  then show ?case by simp
next
  case (2 c)
  then show ?case by (cases Y) auto
next
  case (3 c d r)
  from "3.prems"(1) have c: "c \<noteq> CHR '' ''" "d = CHR '' ''" and rest: "fully_spaced (r @ Y)" "r @ Y \<noteq> []"
    by simp_all
  have "r \<noteq> []"
  proof
    assume "r = []"
    with rest have "fully_spaced Y" "Y \<noteq> []" by simp_all
    with "3.prems"(2) obtain Y' where "Y = CHR '' '' # Y'" by (cases Y) auto
    with \<open>fully_spaced Y\<close> show False by (simp add: fully_spaced_space_Cons)
  qed
  moreover have "fully_spaced r" using "3.IH" rest(1) "3.prems"(2) by simp
  ultimately show ?case using c by simp
qed

lemma fully_spaced_suffix:
  "fully_spaced (X @ Z) \<Longrightarrow> X = [] \<or> last X = CHR '' '' \<Longrightarrow> fully_spaced Z"
proof (induction X rule: fully_spaced.induct)
  case 1
  then show ?case by simp
next
  case (2 c)
  then show ?case by (simp add: fully_spaced_space_Cons)
next
  case (3 c d r)
  from "3.prems"(1) have "fully_spaced (r @ Z)" by simp
  moreover have "r = [] \<or> last r = CHR '' ''" using "3.prems"(2) by (cases "r = []") simp_all
  ultimately show ?case by (rule "3.IH")
qed

lemma fully_spaced_run: "fully_spaced K \<Longrightarrow> run K M \<Longrightarrow> fully_spaced M"
  unfolding run_def using fully_spaced_suffix fully_spaced_prefix by blast

lemma fully_spaced_no_double: "fully_spaced K \<Longrightarrow> K \<noteq> X @ CHR '' '' # CHR '' '' # Y"
proof
  assume fs: "fully_spaced K" and "K = X @ CHR '' '' # CHR '' '' # Y"
  then have "fully_spaced ((X @ [CHR '' '']) @ CHR '' '' # Y)" by simp
  then have "fully_spaced (CHR '' '' # Y)" by (rule fully_spaced_suffix) simp
  then show False by (simp add: fully_spaced_space_Cons)
qed

subsection \<open>Adjacent symbols of a key and where they stand in its text\<close>

lemma split_from_elems:
  "s \<in> set (split_from cur rest) \<Longrightarrow> set s \<subseteq> set cur \<union> {c \<in> set rest. \<not> isspace c}"
  by (induction cur rest rule: split_from.induct) (auto split: if_splits)

lemma split_elems: "s \<in> set (split K) \<Longrightarrow> set s \<subseteq> {c \<in> set K. \<not> isspace c}"
  using split_from_elems [of s "[]" K] by (simp add: split_def)

lemma split_from_head:
  "split_from cur s = f # rest \<Longrightarrow>
   \<exists>W Y. cur @ s = W @ f @ Y \<and> (\<forall>c \<in> set W. isspace c) \<and> (cur \<noteq> [] \<longrightarrow> W = []) \<and>
         (Y = [] \<or> isspace (hd Y))"
proof (induction cur s arbitrary: f rest rule: split_from.induct)
  case (1 cur)
  then have "cur \<noteq> []" "f = cur" by (auto split: if_splits)
  then have "cur @ [] = [] @ f @ [] \<and> (\<forall>c \<in> set []. isspace c)" by simp
  then show ?case by blast
next
  case (2 cur c cs)
  show ?case
  proof (cases "isspace c")
    case sp: True
    show ?thesis
    proof (cases "cur = []")
      case True
      with sp "2.prems" have "split_from [] cs = f # rest" by simp
      from "2.IH"(1) [OF sp True this]
      obtain W Y where "cs = W @ f @ Y" "\<forall>c \<in> set W. isspace c" "Y = [] \<or> isspace (hd Y)"
        by auto
      then have "cur @ c # cs = (c # W) @ f @ Y \<and> (\<forall>c \<in> set (c # W). isspace c) \<and>
                 (Y = [] \<or> isspace (hd Y))"
        using sp True by simp
      then show ?thesis using True by blast
    next
      case False
      with sp "2.prems" have "f = cur" by simp
      then have "cur @ c # cs = [] @ f @ (c # cs) \<and> (\<forall>c \<in> set []. isspace c) \<and>
                 isspace (hd (c # cs))" using sp by simp
      then show ?thesis by blast
    qed
  next
    case nsp: False
    with "2.prems" have "split_from (cur @ [c]) cs = f # rest" by simp
    from "2.IH"(3) [OF nsp this]
    obtain Y where "(cur @ [c]) @ cs = f @ Y" "Y = [] \<or> isspace (hd Y)" by auto
    then have "cur @ c # cs = [] @ f @ Y \<and> (\<forall>c \<in> set []. isspace c) \<and> (Y = [] \<or> isspace (hd Y))"
      by simp
    then show ?thesis by blast
  qed
qed

lemma split_from_pairs:
  "split_from cur s = pre @ a # b # post \<Longrightarrow>
   \<exists>X W Y. cur @ s = X @ a @ W @ b @ Y \<and> W \<noteq> [] \<and> (\<forall>c \<in> set W. isspace c) \<and>
           (X = [] \<or> isspace (last X)) \<and> (Y = [] \<or> isspace (hd Y))"
proof (induction cur s arbitrary: pre rule: split_from.induct)
  case (1 cur)
  then show ?case by (auto split: if_splits)
next
  case (2 cur c cs)
  show ?case
  proof (cases "isspace c")
    case sp: True
    show ?thesis
    proof (cases "cur = []")
      case True
      with sp "2.prems" have "split_from [] cs = pre @ a # b # post" by simp
      from "2.IH"(1) [OF sp True this]
      obtain X W Y where 0: "cs = X @ a @ W @ b @ Y" "W \<noteq> []" "\<forall>c \<in> set W. isspace c"
        "X = [] \<or> isspace (last X)" "Y = [] \<or> isspace (hd Y)" by auto
      have "cur @ c # cs = (c # X) @ a @ W @ b @ Y \<and> isspace (last (c # X))"
        using 0(1,4) sp True by auto
      with 0 show ?thesis by blast
    next
      case False
      with sp "2.prems" have eq: "cur # split_from [] cs = pre @ a # b # post" by simp
      show ?thesis
      proof (cases pre)
        case Nil
        with eq have a: "a = cur" and "split_from [] cs = b # post" by simp_all
        from split_from_head [OF this(2)]
        obtain W Y where 0: "cs = W @ b @ Y" "\<forall>c \<in> set W. isspace c" "Y = [] \<or> isspace (hd Y)"
          by auto
        have "cur @ c # cs = [] @ a @ (c # W) @ b @ Y \<and> c # W \<noteq> [] \<and>
              (\<forall>x \<in> set (c # W). isspace x)"
          using 0 a sp by simp
        with 0(3) show ?thesis by blast
      next
        case (Cons p pre')
        with eq have "split_from [] cs = pre' @ a # b # post" by simp
        from "2.IH"(2) [OF sp False this]
        obtain X W Y where 0: "cs = X @ a @ W @ b @ Y" "W \<noteq> []" "\<forall>c \<in> set W. isspace c"
          "X = [] \<or> isspace (last X)" "Y = [] \<or> isspace (hd Y)" by auto
        have "cur @ c # cs = (cur @ c # X) @ a @ W @ b @ Y \<and> isspace (last (cur @ c # X))"
          using 0(1,4) sp by auto
        with 0 show ?thesis by blast
      qed
    qed
  next
    case nsp: False
    with "2.prems" have "split_from (cur @ [c]) cs = pre @ a # b # post" by simp
    from "2.IH"(3) [OF nsp this] show ?thesis by simp
  qed
qed

lemma in_adjacent_split: "(a, b) \<in> set (adjacent xs) \<Longrightarrow> \<exists>pre post. xs = pre @ a # b # post"
proof -
  assume "(a, b) \<in> set (adjacent xs)"
  then obtain i where i: "i + 1 < length xs" "xs ! i = a" "xs ! (i + 1) = b"
    by (auto simp: in_adjacent_iff)
  have "drop i xs = xs ! i # drop (Suc i) xs" using i(1) by (simp add: Cons_nth_drop_Suc)
  moreover have "drop (Suc i) xs = xs ! Suc i # drop (Suc (Suc i)) xs"
    using i(1) by (simp add: Cons_nth_drop_Suc)
  ultimately have "xs = take i xs @ xs ! i # xs ! Suc i # drop (Suc (Suc i)) xs"
    by (metis append_take_drop_id)
  with i show ?thesis by auto
qed

subsection \<open>The invariant of the training loop\<close>

lemma alphabet_not_space: "c \<in> set alphabet \<Longrightarrow> \<not> isspace c"
  by (auto simp: alphabet_def isspace_def)

lemma isspace_space: "isspace (CHR '' '')"
  by (simp add: isspace_def)

lemma wf_key_space: "wf_key K \<Longrightarrow> c \<in> set K \<Longrightarrow> isspace c \<Longrightarrow> c = CHR '' ''"
proof (rule ccontr)
  assume wf: "wf_key K" and c: "c \<in> set K" "isspace c" and "c \<noteq> CHR '' ''"
  then have "c \<in> set (unspaced K)" by (simp add: unspaced_def)
  with wf have "c \<in> set alphabet" by (auto simp: wf_key_def)
  with c(2) show False by (simp add: alphabet_not_space)
qed

lemma wf_key_nonspace: "wf_key K \<Longrightarrow> c \<in> set K \<Longrightarrow> \<not> isspace c \<Longrightarrow> c \<in> set alphabet"
proof -
  assume wf: "wf_key K" and c: "c \<in> set K" "\<not> isspace c"
  then have "c \<noteq> CHR '' ''" using isspace_space by auto
  with c have "c \<in> set (unspaced K)" by (simp add: unspaced_def)
  with wf show ?thesis by (auto simp: wf_key_def)
qed

lemma selected_pair_run:
  assumes wf: "wf_key K" and adj: "(a, b) \<in> set (adjacent (split K))"
  shows "run K (a @ CHR '' '' # b)" and "a \<noteq> []" and "b \<noteq> []"
    and "CHR '' '' \<notin> set a" and "CHR '' '' \<notin> set b" and "set (a @ b) \<subseteq> set alphabet"
proof -
  from adjacent_subset [OF adj] have ab: "a \<in> set (split K)" "b \<in> set (split K)"
    by simp_all
  then show "a \<noteq> []" "b \<noteq> []" using split_nonempty by blast+
  from ab have sa: "set a \<subseteq> {c \<in> set K. \<not> isspace c}" and sb: "set b \<subseteq> {c \<in> set K. \<not> isspace c}"
    using split_elems by blast+
  then show "CHR '' '' \<notin> set a" "CHR '' '' \<notin> set b" using isspace_space by blast+
  from sa sb show "set (a @ b) \<subseteq> set alphabet" using wf_key_nonspace [OF wf] by auto
  from in_adjacent_split [OF adj] obtain pre post where "split K = pre @ a # b # post" by blast
  then have "split_from [] K = pre @ a # b # post" by (simp add: split_def)
  from split_from_pairs [OF this]
  obtain X W Y where k: "K = X @ a @ W @ b @ Y" and W: "W \<noteq> []" "\<forall>c \<in> set W. isspace c"
    and X: "X = [] \<or> isspace (last X)" and Y: "Y = [] \<or> isspace (hd Y)" by auto
  have sp: "c = CHR '' ''" if "c \<in> set K" "isspace c" for c
    using wf_key_space [OF wf that] .
  from W obtain w W' where W': "W = w # W'" by (cases W) auto
  with W(2) k have w: "w = CHR '' ''" using sp by simp
  have "W' = []"
  proof (rule ccontr)
    assume "W' \<noteq> []"
    then obtain w' W'' where "W' = w' # W''" by (cases W') auto
    with W(2) W' k have "w' = CHR '' ''" using sp by simp
    with k W' w \<open>W' = w' # W''\<close> have "K = (X @ a) @ CHR '' '' # CHR '' '' # (W'' @ b @ Y)" by simp
    with wf show False unfolding wf_key_def by blast
  qed
  with k W' w have k': "K = X @ (a @ CHR '' '' # b) @ Y" by simp
  have "X = [] \<or> last X = CHR '' ''" using X k sp by (cases "X = []") auto
  moreover have "Y = [] \<or> hd Y = CHR '' ''" using Y k sp by (cases Y) auto
  ultimately show "run K (a @ CHR '' '' # b)" using k' unfolding run_def by blast
qed

lemma keys_dict_set: "fst ` set (dict_set k v d) = insert k (fst ` set d)"
  by (induction k v d rule: dict_set.induct) auto

lemma keys_fold_dict_set:
  "fst ` set (fold (\<lambda>(t, f) new. dict_set (g t) f new) tf acc) = fst ` set acc \<union> g ` fst ` set tf"
proof (induction tf arbitrary: acc)
  case Nil
  then show ?case by simp
next
  case (Cons x tf)
  obtain t f where x: "x = (t, f)" by (cases x)
  show ?case unfolding x by (simp add: Cons.IH keys_dict_set Un_assoc)
qed

lemma keys_merge_symbols:
  "fst ` set (fst (merge_symbols (a, b) tf syms)) =
   (\<lambda>K. replace K (a @ CHR '' '' # b) (a @ b)) ` fst ` set tf"
  using keys_fold_dict_set [of "\<lambda>K. replace K (a @ CHR '' '' # b) (a @ b)" tf "[]"]
  by (simp add: merge_symbols_def Let_def)

lemma keys_init_token_freqs:
  "fst ` set (init_token_freqs raw) = (\<lambda>w. join '' '' (map (\<lambda>c. [c]) w)) ` fst ` set raw"
  using keys_fold_dict_set [of "\<lambda>w. join '' '' (map (\<lambda>c. [c]) w)" raw "[]"]
  by (simp add: init_token_freqs_def)

lemma unspaced_replace: "unspaced (replace K (a @ CHR '' '' # b) (a @ b)) = unspaced K"
  unfolding unspaced_def by (rule filter_replace) simp

lemma replace_eq_Nil: "old \<noteq> [] \<Longrightarrow> new \<noteq> [] \<Longrightarrow> replace X old new = [] \<Longrightarrow> X = []"
  by (cases X) (auto split: if_splits)

lemma wf_key_replace:
  assumes "wf_key K" and "a \<noteq> []" and "CHR '' '' \<notin> set a" and "CHR '' '' \<notin> set b"
  shows "wf_key (replace K (a @ CHR '' '' # b) (a @ b))"
proof -
  let ?old = "a @ CHR '' '' # b" and ?new = "a @ b"
  have ne: "?old \<noteq> []" "?new \<noteq> []" and ns: "CHR '' '' \<notin> set ?new" using assms by simp_all
  have "replace K ?old ?new \<noteq> X' @ CHR '' '' # CHR '' '' # Y'" for X' Y'
  proof
    assume "replace K ?old ?new = X' @ CHR '' '' # CHR '' '' # Y'"
    from replace_space_split [OF ne(1) ns this]
    obtain X Z where 1: "K = X @ CHR '' '' # Z" "replace Z ?old ?new = [] @ CHR '' '' # Y'" by auto
    from replace_space_split [OF ne(1) ns 1(2)]
    obtain X1 Z1 where 2: "Z = X1 @ CHR '' '' # Z1" "replace X1 ?old ?new = []" by blast
    from replace_eq_Nil [OF ne 2(2)] have "X1 = []" .
    with 1(1) 2(1) have "K = X @ CHR '' '' # CHR '' '' # Z1" by simp
    with assms(1) show False unfolding wf_key_def by blast
  qed
  moreover have "set (unspaced (replace K ?old ?new)) \<subseteq> set alphabet"
    using assms(1) by (simp add: unspaced_replace wf_key_def)
  ultimately show ?thesis unfolding wf_key_def by blast
qed

lemma symbols0_shape: "m \<in> set symbols0 \<Longrightarrow> length m = 1 \<or> m = ''[UNK]''"
  by (auto simp: symbols0_def)

lemma distinct_symbols0: "distinct symbols0"
  by (simp add: symbols0_def)

lemma unspaced_pair: "CHR '' '' \<notin> set a \<Longrightarrow> CHR '' '' \<notin> set b \<Longrightarrow> unspaced (a @ CHR '' '' # b) = a @ b"
proof -
  assume "CHR '' '' \<notin> set a" "CHR '' '' \<notin> set b"
  then have "unspaced a = a" "unspaced b = b" by (simp_all add: unspaced_id)
  moreover have "unspaced (a @ CHR '' '' # b) = unspaced a @ unspaced b"
    by (simp add: unspaced_def)
  ultimately show ?thesis by simp
qed

lemma bpe_inv_init:
  assumes "\<forall>w \<in> fst ` set raw. set w \<subseteq> set alphabet"
  shows "bpe_inv (initial_state raw)"
proof -
  let ?keys = "fst ` set (init_token_freqs raw)"
  have key: "fully_spaced K \<and> set (unspaced K) \<subseteq> set alphabet" if "K \<in> ?keys" for K
  proof -
    from that obtain w where w: "w \<in> fst ` set raw" "K = join '' '' (map (\<lambda>c. [c]) w)"
      unfolding keys_init_token_freqs by blast
    with assms have al: "set w \<subseteq> set alphabet" by blast
    then have ns: "CHR '' '' \<notin> set w" by (auto simp: alphabet_def)
    then have "unspaced K = w" using w(2) by (simp add: unspaced_join_chars unspaced_id)
    with al ns w(2) show ?thesis by (simp add: fully_spaced_join_chars)
  qed
  have wf: "\<forall>K \<in> ?keys. wf_key K"
    using key fully_spaced_no_double unfolding wf_key_def by blast
  have u: "M1 = M2" if "K1 \<in> ?keys" "K2 \<in> ?keys" "run K1 M1" "run K2 M2" "unspaced M1 = unspaced M2"
    for K1 K2 M1 M2
  proof -
    have "fully_spaced M1" "fully_spaced M2"
      using that key fully_spaced_run by blast+
    then have "M1 = join '' '' (map (\<lambda>c. [c]) (unspaced M1))" "M2 = join '' '' (map (\<lambda>c. [c]) (unspaced M2))"
      using fully_spaced_eq by blast+
    with that(5) show ?thesis by simp
  qed
  have tf: "token_freqs (initial_state raw) = init_token_freqs raw"
    and sy: "symbols (initial_state raw) = symbols0" and me: "merges (initial_state raw) = []"
    by (simp_all add: initial_state_def)
  show ?thesis
    unfolding bpe_inv_def tf sy me
  proof (intro conjI ballI allI impI)
    fix K assume "K \<in> ?keys" with wf show "wf_key K" by blast
  next
    fix K1 K2 M1 M2
    assume "K1 \<in> ?keys" "K2 \<in> ?keys" "run K1 M1 \<and> run K2 M2 \<and> unspaced M1 = unspaced M2"
    then show "M1 = M2" using u [of K1 K2 M1 M2] by blast
  next
    fix K M
    assume "run K M \<and> unspaced M \<in> set (map (\<lambda>(a, b). a @ b) [])"
    then show "CHR '' '' \<notin> set M" by simp
  next
    show "symbols0 = symbols0 @ map (\<lambda>(a, b). a @ b) []" by simp
  next
    show "distinct symbols0" by (rule distinct_symbols0)
  qed
qed

lemma bpe_inv_wf_all: "bpe_inv st \<Longrightarrow> \<forall>K \<in> fst ` set (token_freqs st). wf_key K"
  unfolding bpe_inv_def by (elim conjE)

lemma bpe_inv_wf: "bpe_inv st \<Longrightarrow> K \<in> fst ` set (token_freqs st) \<Longrightarrow> wf_key K"
  using bpe_inv_wf_all by blast

lemma bpe_inv_unique:
  assumes "bpe_inv st" and "K1 \<in> fst ` set (token_freqs st)" and "K2 \<in> fst ` set (token_freqs st)"
    and "run K1 M1" and "run K2 M2" and "unspaced M1 = unspaced M2"
  shows "M1 = M2"
proof -
  from assms(1) have "\<forall>K1 \<in> fst ` set (token_freqs st). \<forall>K2 \<in> fst ` set (token_freqs st). \<forall>M1 M2.
         run K1 M1 \<and> run K2 M2 \<and> unspaced M1 = unspaced M2 \<longrightarrow> M1 = M2"
    unfolding bpe_inv_def by (elim conjE)
  with assms(2-6) show ?thesis by blast
qed

lemma bpe_inv_merged:
  assumes "bpe_inv st" and "K \<in> fst ` set (token_freqs st)" and "run K M"
    and "unspaced M \<in> set (map (\<lambda>(a, b). a @ b) (merges st))"
  shows "CHR '' '' \<notin> set M"
proof -
  from assms(1) have "\<forall>K \<in> fst ` set (token_freqs st). \<forall>M.
         run K M \<and> unspaced M \<in> set (map (\<lambda>(a, b). a @ b) (merges st)) \<longrightarrow> CHR '' '' \<notin> set M"
    unfolding bpe_inv_def by (elim conjE)
  with assms(2-4) show ?thesis by blast
qed

lemma bpe_inv_symbols:
  "bpe_inv st \<Longrightarrow> symbols st = symbols0 @ map (\<lambda>(a, b). a @ b) (merges st) \<and> distinct (symbols st)"
  unfolding bpe_inv_def by (elim conjE, intro conjI)

lemma bpe_inv_step:
  assumes inv: "bpe_inv st" and sel: "get_max_freq_pair (token_freqs st) = Inr (a, b)"
  shows "bpe_inv \<lparr>token_freqs = fst (merge_symbols (a, b) (token_freqs st) (symbols st)),
                  symbols = symbols st @ [a @ b], merges = merges st @ [(a, b)]\<rparr>"
proof -
  let ?keys = "fst ` set (token_freqs st)"
  let ?old = "a @ CHR '' '' # b" and ?new = "a @ b"
  let ?merged = "map (\<lambda>(a, b). a @ b) (merges st)"
  let ?keys' = "fst ` set (fst (merge_symbols (a, b) (token_freqs st) (symbols st)))"
  note wf = bpe_inv_wf [OF inv] and u = bpe_inv_unique [OF inv] and v = bpe_inv_merged [OF inv]
  from bpe_inv_symbols [OF inv]
  have sy: "symbols st = symbols0 @ ?merged" and di: "distinct (symbols st)" by blast+
  from sel have "(a, b) \<in> fst ` set (count_pairs (token_freqs st))"
    unfolding get_max_freq_pair_def by (rule max_key_in)
  then obtain K0 f0 where K0: "(K0, f0) \<in> set (token_freqs st)" "(a, b) \<in> set (adjacent (split K0))"
    unfolding keys_count_pairs by blast
  then have K0k: "K0 \<in> ?keys" by (simp add: rev_image_eqI)
  note p = selected_pair_run [OF wf [OF K0k] K0(2)]
  have ne: "?old \<noteq> []" and ns: "CHR '' '' \<notin> set ?new" using p(4,5) by simp_all
  have keys': "?keys' = (\<lambda>K. replace K ?old ?new) ` ?keys" by (rule keys_merge_symbols)
  have wf': "wf_key K'" if "K' \<in> ?keys'" for K'
    using that wf wf_key_replace [OF _ p(2,4,5)] unfolding keys' by blast
  have origin: "\<exists>K M. K \<in> ?keys \<and> run K M \<and> M' = replace M ?old ?new \<and> unspaced M = unspaced M'"
    if "K' \<in> ?keys'" "run K' M'" for K' M'
  proof -
    from that(1) obtain K where K: "K \<in> ?keys" "K' = replace K ?old ?new" unfolding keys' by blast
    from run_replace [OF ne ns] that(2) K(2) obtain M where "run K M" "M' = replace M ?old ?new"
      by blast
    with K(1) show ?thesis using unspaced_replace [of M a b] by auto
  qed
  have u': "M1' = M2'"
    if "K1' \<in> ?keys'" "K2' \<in> ?keys'" "run K1' M1'" "run K2' M2'" "unspaced M1' = unspaced M2'"
    for K1' K2' M1' M2'
  proof -
    from origin [OF that(1,3)] obtain K1 M1 where 1: "K1 \<in> ?keys" "run K1 M1"
      "M1' = replace M1 ?old ?new" "unspaced M1 = unspaced M1'" by blast
    from origin [OF that(2,4)] obtain K2 M2 where 2: "K2 \<in> ?keys" "run K2 M2"
      "M2' = replace M2 ?old ?new" "unspaced M2 = unspaced M2'" by blast
    from u [OF 1(1) 2(1) 1(2) 2(2)] 1(4) 2(4) that(5) have "M1 = M2" by simp
    with 1(3) 2(3) show ?thesis by simp
  qed
  have v': "CHR '' '' \<notin> set M'"
    if "K' \<in> ?keys'" "run K' M'" "unspaced M' \<in> set (?merged @ [a @ b])" for K' M'
  proof -
    from origin [OF that(1,2)] obtain K M where 1: "K \<in> ?keys" "run K M"
      "M' = replace M ?old ?new" "unspaced M = unspaced M'" by blast
    show ?thesis
    proof (cases "unspaced M' \<in> set ?merged")
      case True
      with v [OF 1(1,2)] 1(4) have nsM: "CHR '' '' \<notin> set M" by simp
      then have "replace M ?old ?new = M" by (intro replace_no_occurrence) simp_all
      with 1(3) nsM show ?thesis by simp
    next
      case False
      with that(3) have "unspaced M' = a @ b" by simp
      with 1(4) have "unspaced M = unspaced ?old" using unspaced_pair [OF p(4,5)] by simp
      from u [OF 1(1) K0k 1(2) p(1) this] have "M = ?old" .
      with 1(3) have "M' = ?new" using replace_self [OF ne] by simp
      with ns show ?thesis by simp
    qed
  qed
  have fresh: "a @ b \<notin> set (symbols st)"
  proof
    assume "a @ b \<in> set (symbols st)"
    with sy have "a @ b \<in> set symbols0 \<union> set ?merged" by (simp only: set_append)
    then consider "a @ b \<in> set symbols0" | "a @ b \<in> set ?merged" by blast
    then show False
    proof cases
      case 1
      from symbols0_shape [OF 1] show False
      proof
        assume "length (a @ b) = 1"
        with p(2,3) show False by (cases a; cases b) simp_all
      next
        assume "a @ b = ''[UNK]''"
        then have "CHR ''['' \<in> set (a @ b)" by simp
        with p(6) have "CHR ''['' \<in> set alphabet" by blast
        then show False by (simp add: alphabet_def)
      qed
    next
      case 2
      then have "unspaced ?old \<in> set ?merged" using unspaced_pair [OF p(4,5)] by simp
      from v [OF K0k p(1) this] show False by simp
    qed
  qed
  show ?thesis
    unfolding bpe_inv_def bpe_state.simps
  proof (intro conjI ballI allI impI)
    fix K assume "K \<in> ?keys'" then show "wf_key K" by (rule wf')
  next
    fix K1 K2 M1 M2
    assume "K1 \<in> ?keys'" "K2 \<in> ?keys'" "run K1 M1 \<and> run K2 M2 \<and> unspaced M1 = unspaced M2"
    then show "M1 = M2" using u' by blast
  next
    fix K M
    assume "K \<in> ?keys'" "run K M \<and> unspaced M \<in> set (map (\<lambda>(a, b). a @ b) (merges st @ [(a, b)]))"
    then show "CHR '' '' \<notin> set M" using v' [of K M] by simp
  next
    show "symbols st @ [a @ b] = symbols0 @ map (\<lambda>(a, b). a @ b) (merges st @ [(a, b)])"
      using sy by simp
  next
    show "distinct (symbols st @ [a @ b])" using di fresh by simp
  qed
qed

lemma bpe_inv_train: "bpe_inv st \<Longrightarrow> train n st = Inr st' \<Longrightarrow> bpe_inv st'"
proof (induction n arbitrary: st)
  case 0
  then show ?case by simp
next
  case (Suc n)
  from Suc.prems(2) obtain a b where g: "get_max_freq_pair (token_freqs st) = Inr (a, b)"
    and run: "train n \<lparr>token_freqs = fst (merge_symbols (a, b) (token_freqs st) (symbols st)),
                  symbols = symbols st @ [a @ b], merges = merges st @ [(a, b)]\<rparr> = Inr st'"
    by (rule train_Suc_Inr)
  from bpe_inv_step [OF Suc.prems(1) g] run show ?case by (rule Suc.IH)
qed

lemma train_distinct:
  "\<forall>w \<in> fst ` set raw. set w \<subseteq> set alphabet \<Longrightarrow> train n (initial_state raw) = Inr st \<Longrightarrow>
   distinct (symbols st)"
  using bpe_inv_symbols [OF bpe_inv_train [OF bpe_inv_init]] by blast

subsection \<open>The vocabulary after \<open>n\<close> rounds\<close>

text \<open>
  Claim C4, as the code has it.  In a training run of \<open>n\<close> rounds that starts from the 28
  initial symbols and does not fail, the vocabulary has 28 + \<open>n\<close> symbols; the 28 initial
  symbols stay at the front, in their order (nothing is removed); the symbols behind them
  are the concatenations of the selected pairs, in the order of selection; and one more
  round appends exactly one symbol, the concatenation of the pair it selects.  When the
  words of the corpus are made of lowercase letters and the end-of-word marker, no symbol
  is repeated: every appended symbol is new.  \<open>merge_symbols\<close> itself appends without
  looking at the list, and for other corpora a repetition is possible.
\<close>

theorem vocabulary_growth:
  "(train n (initial_state raw) = Inr st \<longrightarrow>
      length (symbols st) = 28 + n \<and>
      take 28 (symbols st) = symbols0 \<and>
      length (merges st) = n \<and>
      symbols st = symbols0 @ map (\<lambda>(a, b). a @ b) (merges st) \<and>
      (\<forall>st'. train (Suc n) (initial_state raw) = Inr st' \<longrightarrow>
         (\<exists>a b. merges st' = merges st @ [(a, b)] \<and> symbols st' = symbols st @ [a @ b]))) \<and>
   ((\<forall>w \<in> fst ` set raw. set w \<subseteq> set alphabet) \<and> train n (initial_state raw) = Inr st \<longrightarrow>
      distinct (symbols st))"
proof (intro conjI impI)
  assume run: "train n (initial_state raw) = Inr st"
  have l0: "length symbols0 = 28" by (simp add: symbols0_def)
  from train_symbols [OF run] obtain ps where ps: "length ps = n" "merges st = ps"
    "symbols st = symbols0 @ map (\<lambda>(a, b). a @ b) ps"
    by (auto simp: initial_state_def)
  have step: "\<exists>a b. merges st' = merges st @ [(a, b)] \<and> symbols st' = symbols st @ [a @ b]"
    if "train (Suc n) (initial_state raw) = Inr st'" for st'
  proof -
    have "train (n + 1) (initial_state raw) = train 1 st"
      using run by (simp only: train_add sum.case)
    with that have "train (Suc 0) st = Inr st'" by simp
    from train_symbols [OF this] obtain qs where "length qs = Suc 0" "merges st' = merges st @ qs"
      "symbols st' = symbols st @ map (\<lambda>(a, b). a @ b) qs" by blast
    then obtain q where "qs = [q]" by (cases qs) auto
    then obtain a b where "qs = [(a, b)]" by (cases q) auto
    with \<open>merges st' = merges st @ qs\<close> \<open>symbols st' = symbols st @ map (\<lambda>(a, b). a @ b) qs\<close>
    show ?thesis by simp
  qed
  show "length (symbols st) = 28 + n" using ps l0 by simp
  show "take 28 (symbols st) = symbols0" using ps l0 by simp
  show "length (merges st) = n" using ps by simp
  show "symbols st = symbols0 @ map (\<lambda>(a, b). a @ b) (merges st)" using ps by simp
  show "\<forall>st'. train (Suc n) (initial_state raw) = Inr st' \<longrightarrow>
         (\<exists>a b. merges st' = merges st @ [(a, b)] \<and> symbols st' = symbols st @ [a @ b])"
    using step by blast
next
  assume "(\<forall>w \<in> fst ` set raw. set w \<subseteq> set alphabet) \<and> train n (initial_state raw) = Inr st"
  then show "distinct (symbols st)" using train_distinct by blast
qed

text \<open>A run of three rounds on a corpus of two words of the alphabet.\<close>

theorem vocabulary_growth_witness:
  "train 3 (initial_state [(''fast_'', 4), (''tall_'', 5)]) =
     Inr \<lparr>token_freqs = [(''f a s t _'', 4), (''tall _'', 5)],
          symbols = symbols0 @ [''ta'', ''tal'', ''tall''],
          merges = [(''t'', ''a''), (''ta'', ''l''), (''tal'', ''l'')]\<rparr> \<and>
   length (symbols0 @ [''ta'', ''tal'', ''tall'']) = 28 + 3 \<and>
   take 28 (symbols0 @ [''ta'', ''tal'', ''tall'']) = symbols0 \<and>
   distinct (symbols0 @ [''ta'', ''tal'', ''tall''])"
proof -
  have run: "train 3 (initial_state [(''fast_'', 4), (''tall_'', 5)]) =
     Inr \<lparr>token_freqs = [(''f a s t _'', 4), (''tall _'', 5)],
          symbols = symbols0 @ [''ta'', ''tal'', ''tall''],
          merges = [(''t'', ''a''), (''ta'', ''l''), (''tal'', ''l'')]\<rparr>"
    by code_simp
  have al: "\<forall>w \<in> fst ` set [(''fast_'', 4::int), (''tall_'', 5)]. set w \<subseteq> set alphabet"
    by (simp add: alphabet_def)
  from vocabulary_growth [THEN conjunct1, THEN mp, OF run]
       vocabulary_growth [THEN conjunct2, THEN mp, OF conjI, OF al run] run
  show ?thesis by simp
qed

text \<open>
  The claim as it is stated, for every training run: on the one-word corpus \<open>[UNK]_\<close> the
  fourth round joins \<open>[UNK\<close> and \<open>]\<close> and appends \<open>[UNK]\<close>, which the initial vocabulary
  already holds.
\<close>

theorem vocabulary_duplicate_counterexample:
  "train 4 (initial_state [(''[UNK]_'', 1)]) =
     Inr \<lparr>token_freqs = [(''[UNK] _'', 1)],
          symbols = symbols0 @ [''[U'', ''[UN'', ''[UNK'', ''[UNK]''],
          merges = [(''['', ''U''), (''[U'', ''N''), (''[UN'', ''K''), (''[UNK'', '']'')]\<rparr> \<and>
   \<not> distinct (symbols0 @ [''[U'', ''[UN'', ''[UNK'', ''[UNK]''])"
  by code_simp

section \<open>The scan of one token\<close>

lemma while_seg_run:
  "while_option (seg_cond token) (seg_body token V) (start, e, out) = Some (seg_run token V start e out)"
proof (induction token V start e out rule: seg_run.induct)
  case (1 token V start e out)
  have w: "while_option (seg_cond token) (seg_body token V) (start, e, out) =
           (if seg_cond token (start, e, out)
            then while_option (seg_cond token) (seg_body token V) (seg_body token V (start, e, out))
            else Some (start, e, out))"
    by (rule while_option_unfold)
  have r: "seg_run token V start e out =
     (if start < length token \<and> start < e then
        (if slice token start e \<in> set V
         then seg_run token V e (length token) (out @ [slice token start e])
         else seg_run token V start (e - 1) out)
      else (start, e, out))"
    by (rule seg_run.simps)
  show ?case
  proof (cases "start < length token \<and> start < e")
    case False
    then have "\<not> seg_cond token (start, e, out)" by (simp add: seg_cond_def)
    with False show ?thesis by (simp only: w r if_False)
  next
    case True
    then have c: "seg_cond token (start, e, out)" by (simp add: seg_cond_def)
    show ?thesis
    proof (cases "slice token start e \<in> set V")
      case m: True
      then have b: "seg_body token V (start, e, out) = (e, length token, out @ [slice token start e])"
        by (simp add: seg_body_def)
      from "1.IH"(1) [OF True m] show ?thesis
        using True m c by (simp only: w r b if_True simp_thms)
    next
      case m: False
      then have b: "seg_body token V (start, e, out) = (start, e - 1, out)"
        by (simp add: seg_body_def)
      from "1.IH"(2) [OF True m] show ?thesis
        using True m c by (simp only: w r b if_True if_False simp_thms)
    qed
  qed
qed

lemma segment_token_seg_run:
  "segment_token token V = Some (seg_result token (seg_run token V 0 (length token) []))"
  by (simp add: segment_token_def while_seg_run seg_result_def split: prod.splits)

lemma scan_seg_run: "scan token V start e out (seg_result token (seg_run token V start e out))"
proof (induction token V start e out rule: seg_run.induct)
  case (1 token V start e out)
  note r = seg_run.simps [of token V start e out]
  show ?case
  proof (cases "start < length token \<and> start < e")
    case False
    show ?thesis
    proof (cases "start < length token")
      case True
      with False have "e \<le> start" by simp
      with True False show ?thesis
        by (simp add: r seg_result_def scan_unknown)
    next
      case nl: False
      then show ?thesis by (simp add: r seg_result_def scan_consumed)
    qed
  next
    case True
    show ?thesis
    proof (cases "slice token start e \<in> set V")
      case m: True
      from "1.IH"(1) [OF True m] True m show ?thesis
        by (simp add: r scan_match)
    next
      case m: False
      from "1.IH"(2) [OF True m] True m show ?thesis
        by (simp add: r scan_shrink)
    qed
  qed
qed

lemma scan_unique: "scan token V start e out res \<Longrightarrow> res = seg_result token (seg_run token V start e out)"
proof (induction rule: scan.induct)
  case (scan_match start e emitted res)
  then show ?case by (simp add: seg_run.simps [of token V start e])
next
  case (scan_shrink start e emitted res)
  then show ?case by (simp add: seg_run.simps [of token V start e])
next
  case (scan_unknown start e emitted)
  then show ?case by (simp add: seg_run.simps [of token V start e] seg_result_def)
next
  case (scan_consumed start e emitted)
  then show ?case by (simp add: seg_run.simps [of token V start e] seg_result_def)
qed

lemma scan_iff_segment_token:
  "scan token V 0 (length token) [] res \<longleftrightarrow> segment_token token V = Some res"
  using scan_seg_run [of token V 0 "length token" "[]"] scan_unique [of token V 0 "length token" "[]" res]
  by (auto simp: segment_token_seg_run)

text \<open>\<open>longest_match\<close> is what its name says: 0 when no prefix of one to \<open>n\<close> characters
  is in the vocabulary, and otherwise the length of the longest such prefix.\<close>

lemma longest_match_spec:
  "(longest_match V rest n = 0 \<longrightarrow> (\<forall>j. 1 \<le> j \<and> j \<le> n \<longrightarrow> take j rest \<notin> set V)) \<and>
   (longest_match V rest n \<noteq> 0 \<longrightarrow>
      longest_match V rest n \<le> n \<and> take (longest_match V rest n) rest \<in> set V \<and>
      (\<forall>j. longest_match V rest n < j \<and> j \<le> n \<longrightarrow> take j rest \<notin> set V))"
proof (induction n)
  case 0
  then show ?case by simp
next
  case (Suc n)
  show ?case
  proof (cases "take (Suc n) rest \<in> set V")
    case True
    then show ?thesis by auto
  next
    case False
    have "j \<le> n \<or> j = Suc n" if "j \<le> Suc n" for j using that by arith
    with False Suc show ?thesis by (auto simp: le_Suc_eq)
  qed
qed

lemma longest_match_le: "longest_match V rest n \<le> n"
  by (induction n) auto

lemma greedy_from_length: "greedy_from V rest (length rest) = greedy V rest"
  by (simp add: greedy_from_def greedy.simps [of V rest])

lemma seg_run_greedy:
  "start \<le> e \<Longrightarrow> e \<le> length token \<Longrightarrow>
   seg_result token (seg_run token V start e out) = out @ greedy_from V (drop start token) (e - start)"
proof (induction token V start e out rule: seg_run.induct)
  case (1 token V start e out)
  note r = seg_run.simps [of token V start e out]
  show ?case
  proof (cases "start < length token \<and> start < e")
    case False
    show ?thesis
    proof (cases "start < length token")
      case True
      with False have "\<not> start < e" by simp
      with True show ?thesis
        by (simp add: r seg_result_def greedy_from_def)
    next
      case nl: False
      then show ?thesis by (simp add: r seg_result_def greedy_from_def)
    qed
  next
    case True
    then obtain k where k: "e - start = Suc k" by (cases "e - start") auto
    have sl: "slice token start e = take (Suc k) (drop start token)"
      by (simp add: slice_def k)
    have ne: "drop start token \<noteq> []" using True by simp
    show ?thesis
    proof (cases "slice token start e \<in> set V")
      case m: True
      have lm: "longest_match V (drop start token) (e - start) = Suc k"
        using m sl k by simp
      have "seg_result token (seg_run token V start e out) =
            seg_result token (seg_run token V e (length token) (out @ [slice token start e]))"
        using True m by (simp add: r)
      also have "\<dots> = (out @ [slice token start e]) @ greedy_from V (drop e token) (length token - e)"
        using "1.IH"(1) [OF True m] "1.prems" by simp
      also have "greedy_from V (drop e token) (length token - e) = greedy V (drop e token)"
        using greedy_from_length [of V "drop e token"] by simp
      also have "drop e token = drop (Suc k) (drop start token)"
      proof -
        have "e = Suc k + start" using k True by arith
        then show ?thesis by simp
      qed
      finally show ?thesis
        using ne lm sl by (simp add: greedy_from_def)
    next
      case m: False
      have k': "e - 1 - start = k" using k by arith
      have lm: "longest_match V (drop start token) (e - start) = longest_match V (drop start token) (e - 1 - start)"
        using m sl by (simp only: k k' longest_match.simps if_False)
      have "seg_result token (seg_run token V start e out) =
            seg_result token (seg_run token V start (e - 1) out)"
        using True m by (simp add: r)
      also have "\<dots> = out @ greedy_from V (drop start token) (e - 1 - start)"
      proof -
        have "start \<le> e - 1" "e - 1 \<le> length token" using "1.prems" True by arith+
        then show ?thesis by (rule "1.IH"(2) [OF True m])
      qed
      finally show ?thesis
        using lm by (simp add: greedy_from_def)
    qed
  qed
qed

lemma segment_token_greedy: "segment_token token V = Some (greedy V token)"
  using seg_run_greedy [of 0 "length token" token V "[]"]
  by (simp add: segment_token_seg_run greedy_from_length)

lemma segment_BPE_map:
  "segment_BPE tokens V = Some (map (\<lambda>token. join '' '' (greedy V token)) tokens)"
  by (induction tokens) (simp_all add: segment_token_greedy)

text \<open>
  Claim C5.  For every token and vocabulary the list that \<open>segment_BPE\<close> builds for the
  token is the output of the scan the claim describes: from \<open>start\<close> = 0 and \<open>end\<close> = the
  length of the token, a substring that is in the vocabulary is emitted, \<open>start\<close> moves to
  \<open>end\<close> and \<open>end\<close> goes back to the length; otherwise \<open>end\<close> loses one; when \<open>end\<close> has come
  down to \<open>start\<close> exactly one \<open>[UNK]\<close> is emitted for all that is left and the token is
  finished; when \<open>start\<close> has reached the length nothing more is emitted.  The relation
  \<open>scan\<close> says this, and the code computes its one and only output; this output is the
  greedy longest-match segmentation \<open>greedy\<close>.
\<close>

theorem segment_token_scan:
  "(scan token V 0 (length token) [] res \<longleftrightarrow> segment_token token V = Some res) \<and>
   segment_token token V = Some (greedy V token)"
  using scan_iff_segment_token [of token V res] segment_token_greedy [of token V] by simp

text \<open>
  Claim C9.  \<open>segment_BPE\<close> returns for every list of tokens and every vocabulary, with
  one output per token: no \<open>while\<close> loop runs for ever.  In a loop state with \<open>end\<close> at
  most the length of the token, every round of the loop either leaves \<open>start\<close> and takes
  one off \<open>end\<close> (no match), or moves \<open>start\<close> strictly forward, not beyond the length of
  the token (match); \<open>end\<close> stays at most the length.
\<close>

theorem segment_BPE_terminates:
  "(\<exists>outputs. segment_BPE tokens V = Some outputs \<and> length outputs = length tokens) \<and>
   (seg_cond token (start, e, cur) \<and> e \<le> length token \<longrightarrow>
      (\<exists>start' e' cur'. seg_body token V (start, e, cur) = (start', e', cur') \<and>
          e' \<le> length token \<and>
          ((start' = start \<and> e' < e) \<or> (start < start' \<and> start' \<le> length token))))"
proof
  show "\<exists>outputs. segment_BPE tokens V = Some outputs \<and> length outputs = length tokens"
    by (simp add: segment_BPE_map)
  show "seg_cond token (start, e, cur) \<and> e \<le> length token \<longrightarrow>
      (\<exists>start' e' cur'. seg_body token V (start, e, cur) = (start', e', cur') \<and>
          e' \<le> length token \<and>
          ((start' = start \<and> e' < e) \<or> (start < start' \<and> start' \<le> length token)))"
    by (auto simp: seg_cond_def seg_body_def)
qed

text \<open>A run on two tokens, and one round of each kind on the token \<open>ab\<close>.\<close>

theorem segment_BPE_terminates_witness:
  "segment_BPE [''tallest_'', ''4x''] (symbols0 @ [''ta'', ''tal'', ''tall'']) =
     Some [''tall e s t _'', ''[UNK]''] \<and>
   seg_cond ''ab'' (0, 2, []) \<and>
   seg_body ''ab'' [''a'', ''b''] (0, 2, []) = (0, 1, []) \<and>
   seg_body ''ab'' [''a'', ''b''] (0, 1, []) = (1, 2, [''a''])"
proof -
  have c: "seg_cond ''ab'' (0, 2, []) \<and> 2 \<le> length ''ab''" by (simp add: seg_cond_def)
  have b1: "seg_body ''ab'' [''a'', ''b''] (0, 2, []) = (0, 1, [])"
    by (simp add: seg_body_def slice_def)
  have b2: "seg_body ''ab'' [''a'', ''b''] (0, 1, []) = (1, 2, [''a''])"
    by (simp add: seg_body_def slice_def)
  have s: "segment_BPE [''tallest_'', ''4x''] (symbols0 @ [''ta'', ''tal'', ''tall'']) =
     Some [''tall e s t _'', ''[UNK]'']"
    by code_simp
  from segment_BPE_terminates [of "[''tallest_'', ''4x'']" "symbols0 @ [''ta'', ''tal'', ''tall'']"
      "''ab''" 0 2 "[]"] c b1 b2 s
  show ?thesis by simp
qed

section \<open>Segmenting the training words\<close>

lemma longest_match_in: "longest_match V rest n \<noteq> 0 \<Longrightarrow> take (longest_match V rest n) rest \<in> set V"
  by (induction n) (auto split: if_splits)

lemma longest_match_pos: "take 1 rest \<in> set V \<Longrightarrow> 1 \<le> n \<Longrightarrow> 1 \<le> longest_match V rest n"
proof (induction n)
  case 0
  then show ?case by simp
next
  case (Suc n)
  show ?case
  proof (cases "n = 0")
    case True
    with Suc.prems show ?thesis by simp
  next
    case False
    with Suc show ?thesis by simp
  qed
qed

lemma greedy_covered:
  "(\<forall>c \<in> set rest. [c] \<in> set V) \<Longrightarrow>
   concat (greedy V rest) = rest \<and> set (greedy V rest) \<subseteq> set V \<and>
   (\<forall>p \<in> set (greedy V rest). set p \<subseteq> set rest)"
proof (induction V rest rule: greedy.induct)
  case (1 V rest)
  note g = greedy.simps [of V rest]
  show ?case
  proof (cases "rest = []")
    case True
    then show ?thesis by (simp add: greedy.simps [of V "[]"])
  next
    case False
    let ?k = "longest_match V rest (length rest)"
    from False obtain c cs where rest: "rest = c # cs" by (cases rest) auto
    with "1.prems" have "take 1 rest \<in> set V" by simp
    moreover have "1 \<le> length rest" using rest by simp
    ultimately have pos: "1 \<le> ?k" by (rule longest_match_pos)
    then have k0: "?k \<noteq> 0" by simp
    then have inV: "take ?k rest \<in> set V" by (rule longest_match_in)
    have "\<forall>c \<in> set (drop ?k rest). [c] \<in> set V"
      using "1.prems" by (meson in_set_dropD)
    from "1.IH" [OF False k0 this]
    have ih: "concat (greedy V (drop ?k rest)) = drop ?k rest"
      "set (greedy V (drop ?k rest)) \<subseteq> set V"
      "\<forall>p \<in> set (greedy V (drop ?k rest)). set p \<subseteq> set (drop ?k rest)" by simp_all
    have gk: "greedy V rest = take ?k rest # greedy V (drop ?k rest)"
      using False k0 by (simp add: g)
    have "concat (greedy V rest) = rest" by (simp add: gk ih(1))
    moreover have "set (greedy V rest) \<subseteq> set V" using inV ih(2) by (simp add: gk)
    moreover have "\<forall>p \<in> set (greedy V rest). set p \<subseteq> set rest"
      using ih(3) set_take_subset [of ?k rest] set_drop_subset [of ?k rest]
      by (auto simp: gk)
    ultimately show ?thesis by blast
  qed
qed

lemma unspaced_join: "unspaced (join '' '' ps) = concat (map unspaced ps)"
  by (induction ps) (simp_all add: join_Cons unspaced_def)

lemma unspaced_join_id:
  "(\<forall>p \<in> set ps. CHR '' '' \<notin> set p) \<Longrightarrow> unspaced (join '' '' ps) = concat ps"
proof -
  assume "\<forall>p \<in> set ps. CHR '' '' \<notin> set p"
  then have "map unspaced ps = ps" by (simp add: map_idI unspaced_id)
  then show ?thesis by (simp add: unspaced_join)
qed

lemma alphabet_symbols0: "c \<in> set alphabet \<Longrightarrow> [c] \<in> set symbols0"
  by (auto simp: alphabet_def symbols0_def)

text \<open>
  Claim C8.  Take a corpus whose words are made of lowercase letters and the end-of-word
  marker, any number of merge rounds that the training run completes, and a word of the
  corpus.  Segmenting the word with the vocabulary of the run gives symbols of that
  vocabulary whose concatenation is the word; the string \<open>segment_BPE\<close> returns for it,
  with the delimiters taken out, is the word; and no \<open>[UNK]\<close> is emitted.
\<close>

theorem training_words_reconstructed:
  assumes "\<forall>w \<in> fst ` set raw. set w \<subseteq> set alphabet"
    and "train n (initial_state raw) = Inr st"
    and "w \<in> fst ` set raw"
  shows "\<exists>pieces. segment_token w (symbols st) = Some pieces \<and>
           segment_BPE [w] (symbols st) = Some [join '' '' pieces] \<and>
           concat pieces = w \<and> unspaced (join '' '' pieces) = w \<and>
           ''[UNK]'' \<notin> set pieces \<and> set pieces \<subseteq> set (symbols st)"
proof -
  from train_symbols [OF assms(2)] have sub: "set symbols0 \<subseteq> set (symbols st)"
    by (auto simp: initial_state_def)
  from assms(1,3) have w: "set w \<subseteq> set alphabet" by blast
  then have "\<forall>c \<in> set w. [c] \<in> set (symbols st)"
    using alphabet_symbols0 sub by blast
  from greedy_covered [OF this]
  have g: "concat (greedy (symbols st) w) = w" "set (greedy (symbols st) w) \<subseteq> set (symbols st)"
    "\<forall>p \<in> set (greedy (symbols st) w). set p \<subseteq> set w" by simp_all
  have nosp: "\<forall>p \<in> set (greedy (symbols st) w). CHR '' '' \<notin> set p"
    using g(3) w by (auto simp: alphabet_def)
  have nounk: "''[UNK]'' \<notin> set (greedy (symbols st) w)"
  proof
    assume "''[UNK]'' \<in> set (greedy (symbols st) w)"
    with g(3) have "set ''[UNK]'' \<subseteq> set w" by blast
    with w have "CHR ''['' \<in> set alphabet" by auto
    then show False by (simp add: alphabet_def)
  qed
  have "segment_token w (symbols st) = Some (greedy (symbols st) w)"
    by (rule segment_token_greedy)
  moreover have "segment_BPE [w] (symbols st) = Some [join '' '' (greedy (symbols st) w)]"
    by (simp add: segment_BPE_map)
  moreover have "unspaced (join '' '' (greedy (symbols st) w)) = w"
    using unspaced_join_id [OF nosp] g(1) by simp
  ultimately show ?thesis using g(1,2) nounk by blast
qed

text \<open>The two-word corpus after three rounds, and its word \<open>fast_\<close>.\<close>

theorem training_words_reconstructed_witness:
  "train 3 (initial_state [(''fast_'', 4), (''tall_'', 5)]) =
     Inr \<lparr>token_freqs = [(''f a s t _'', 4), (''tall _'', 5)],
          symbols = symbols0 @ [''ta'', ''tal'', ''tall''],
          merges = [(''t'', ''a''), (''ta'', ''l''), (''tal'', ''l'')]\<rparr> \<and>
   (\<exists>pieces. segment_BPE [''fast_''] (symbols0 @ [''ta'', ''tal'', ''tall'']) = Some [join '' '' pieces] \<and>
      concat pieces = ''fast_'' \<and> ''[UNK]'' \<notin> set pieces)"
proof -
  have run: "train 3 (initial_state [(''fast_'', 4), (''tall_'', 5)]) =
     Inr \<lparr>token_freqs = [(''f a s t _'', 4), (''tall _'', 5)],
          symbols = symbols0 @ [''ta'', ''tal'', ''tall''],
          merges = [(''t'', ''a''), (''ta'', ''l''), (''tal'', ''l'')]\<rparr>"
    by code_simp
  have al: "\<forall>w \<in> fst ` set [(''fast_'', 4::int), (''tall_'', 5)]. set w \<subseteq> set alphabet"
    by (simp add: alphabet_def)
  have w: "''fast_'' \<in> fst ` set [(''fast_'', 4::int), (''tall_'', 5)]" by simp
  from training_words_reconstructed [OF al run w] run show ?thesis by auto
qed

section \<open>What the two functions change\<close>

lemma heap_get_update:
  "heap_get (h[r := v]) r' = (if r' < length h then (if r' = r then Some v else heap_get h r') else None)"
  by (simp add: heap_get_def)

lemma heap_get_append:
  "heap_get (h @ [v]) r = (if r < length h then heap_get h r else if r = length h then Some v else None)"
  by (auto simp: heap_get_def nth_append)

lemma heap_get_Some_less: "heap_get h r = Some v \<Longrightarrow> r < length h"
  by (simp add: heap_get_def split: if_splits)

text \<open>
  Claim C10.  Called on a dictionary object and a list object of a store,
  \<open>merge_symbols\<close> returns a reference that did not exist before the call, to a new
  dictionary holding the rewritten table; afterwards the list object holds the old list
  with one more element, the concatenation of the pair; the dictionary object it was
  given, and every other object of the store, is as before.  \<open>get_max_freq_pair\<close>
  returns what the selection returns on the table and leaves every object of the store as
  it was (it writes to its own \<open>pairs\<close> only).
\<close>

theorem frame_of_merge_and_selection:
  "heap_get h tf_ref = Some (DictObj tf) \<and> heap_get h sym_ref = Some (ListObj syms) \<longrightarrow>
     (\<exists>h'. merge_symbols_heap (a, b) tf_ref sym_ref h = (Inr (length h), h') \<and>
        heap_get h (length h) = None \<and>
        heap_get h' (length h) = Some (DictObj (fst (merge_symbols (a, b) tf syms))) \<and>
        heap_get h' sym_ref = Some (ListObj (syms @ [a @ b])) \<and>
        heap_get h' tf_ref = Some (DictObj tf) \<and>
        (\<forall>r. r < length h \<and> r \<noteq> sym_ref \<longrightarrow> heap_get h' r = heap_get h r)) \<and>
     (\<exists>h'. get_max_freq_pair_heap tf_ref h = (get_max_freq_pair tf, h') \<and>
        (\<forall>r. r < length h \<longrightarrow> heap_get h' r = heap_get h r))"
proof (intro impI conjI)
  assume a: "heap_get h tf_ref = Some (DictObj tf) \<and> heap_get h sym_ref = Some (ListObj syms)"
  then have lt: "tf_ref < length h" "sym_ref < length h"
    using heap_get_Some_less by blast+
  from a have ne: "tf_ref \<noteq> sym_ref" by auto
  let ?new = "fold (\<lambda>(token, freq) new_token_freqs.
                 dict_set (replace token (join '' '' [a, b]) (join '''' [a, b])) freq new_token_freqs) tf []"
  let ?h' = "(h[sym_ref := ListObj (syms @ [a @ b])] @ [DictObj []])[length h := DictObj ?new]"
  have m: "merge_symbols_heap (a, b) tf_ref sym_ref h = (Inr (length h), ?h')"
    using a lt ne by (simp add: merge_symbols_heap_def Let_def heap_get_append heap_get_update)
  have new: "fst (merge_symbols (a, b) tf syms) = ?new"
    by (simp add: merge_symbols_def Let_def)
  have "heap_get h (length h) = None" by (simp add: heap_get_def)
  moreover have "heap_get ?h' (length h) = Some (DictObj (fst (merge_symbols (a, b) tf syms)))"
    by (simp add: new heap_get_update)
  moreover have "heap_get ?h' sym_ref = Some (ListObj (syms @ [a @ b]))"
    using lt by (simp add: heap_get_update heap_get_append)
  moreover have "heap_get ?h' tf_ref = Some (DictObj tf)"
    using a lt ne by (simp add: heap_get_update heap_get_append)
  moreover have "\<forall>r. r < length h \<and> r \<noteq> sym_ref \<longrightarrow> heap_get ?h' r = heap_get h r"
    by (simp add: heap_get_update heap_get_append)
  ultimately show "\<exists>h'. merge_symbols_heap (a, b) tf_ref sym_ref h = (Inr (length h), h') \<and>
        heap_get h (length h) = None \<and>
        heap_get h' (length h) = Some (DictObj (fst (merge_symbols (a, b) tf syms))) \<and>
        heap_get h' sym_ref = Some (ListObj (syms @ [a @ b])) \<and>
        heap_get h' tf_ref = Some (DictObj tf) \<and>
        (\<forall>r. r < length h \<and> r \<noteq> sym_ref \<longrightarrow> heap_get h' r = heap_get h r)"
    using m by blast
  let ?h2 = "(h @ [PairsObj []])[length h := PairsObj (count_pairs tf)]"
  have g: "get_max_freq_pair_heap tf_ref h = (get_max_freq_pair tf, ?h2)"
    using a lt by (simp add: get_max_freq_pair_heap_def Let_def heap_get_append
        get_max_freq_pair_def count_pairs_def)
  have "\<forall>r. r < length h \<longrightarrow> heap_get ?h2 r = heap_get h r"
    by (simp add: heap_get_update heap_get_append)
  with g show "\<exists>h'. get_max_freq_pair_heap tf_ref h = (get_max_freq_pair tf, h') \<and>
        (\<forall>r. r < length h \<longrightarrow> heap_get h' r = heap_get h r)"
    by blast
qed

text \<open>A store of one table and the initial vocabulary.\<close>

theorem frame_of_merge_and_selection_witness:
  "heap_get [DictObj [(''t a l l _'', 5)], ListObj symbols0] 0 = Some (DictObj [(''t a l l _'', 5)]) \<and>
   heap_get [DictObj [(''t a l l _'', 5)], ListObj symbols0] 1 = Some (ListObj symbols0) \<and>
   merge_symbols_heap (''t'', ''a'') 0 1 [DictObj [(''t a l l _'', 5)], ListObj symbols0] =
     (Inr 2, [DictObj [(''t a l l _'', 5)], ListObj (symbols0 @ [''ta'']), DictObj [(''ta l l _'', 5)]]) \<and>
   fst (get_max_freq_pair_heap 0 [DictObj [(''t a l l _'', 5)], ListObj symbols0]) = Inr (''t'', ''a'')"
proof -
  let ?h = "[DictObj [(''t a l l _'', 5)], ListObj symbols0]"
  have a: "heap_get ?h 0 = Some (DictObj [(''t a l l _'', 5)]) \<and> heap_get ?h 1 = Some (ListObj symbols0)"
    by (simp add: heap_get_def)
  have m: "merge_symbols_heap (''t'', ''a'') 0 1 ?h =
     (Inr 2, [DictObj [(''t a l l _'', 5)], ListObj (symbols0 @ [''ta'']), DictObj [(''ta l l _'', 5)]])"
    by code_simp
  have g: "get_max_freq_pair [(''t a l l _'', 5)] = Inr (''t'', ''a'')"
    by code_simp
  from frame_of_merge_and_selection [of ?h 0 "[(''t a l l _'', 5)]" 1 symbols0 "''t''" "''a''"] a m g
  show ?thesis by auto
qed

section \<open>The replacement in \<open>merge_symbols\<close>\<close>

text \<open>
  Claim C2 says that only adjacent occurrences of the two symbols of the pair are joined.
  \<open>merge_symbols\<close> replaces in the text of the key, and the text \<open>a b\<close> also occurs where a
  symbol ends with \<open>a\<close> or the next one begins with \<open>b\<close>.  The key \<open>xa b\<close> has the symbols
  \<open>xa\<close> and \<open>b\<close>, and not the pair (a, b); the call for (a, b) rewrites it to \<open>xab\<close>.  The
  training run on the words \<open>xab\<close>: 1, \<open>xa\<close>: 3, \<open>ab\<close>: 2 reaches this call in its second
  round: it selects (x, a), then (a, b), and ends with the key \<open>xab\<close>, a symbol that the
  vocabulary does not hold.
\<close>

theorem merge_symbols_joins_across_symbols:
  "split ''xa b'' = [''xa'', ''b''] \<and>
   (''a'', ''b'') \<notin> set (adjacent (split ''xa b'')) \<and>
   fst (merge_symbols (''a'', ''b'') [(''xa b'', 1)] symbols0) = [(''xab'', 1)] \<and>
   train 2 (initial_state [(''xab'', 1), (''xa'', 3), (''ab'', 2)]) =
     Inr \<lparr>token_freqs = [(''xab'', 1), (''xa'', 3), (''ab'', 2)],
          symbols = symbols0 @ [''xa'', ''ab''],
          merges = [(''x'', ''a''), (''a'', ''b'')]\<rparr>"
  by code_simp

section \<open>The worked example of the notebook\<close>

text \<open>
  Claim C3.  Ten merge rounds on the corpus \<open>fast_\<close>: 4, \<open>faster_\<close>: 3, \<open>tall_\<close>: 5,
  \<open>taller_\<close>: 4 select, in this order, the pairs (t,a), (ta,l), (tal,l), (f,a), (fa,s),
  (fas,t), (e,r), (er,_), (tall,_), (fast,_); the table then has exactly the keys
  \<open>fast_\<close>, \<open>fast er_\<close>, \<open>tall_\<close>, \<open>tall er_\<close> with the frequencies of the four words,
  and the vocabulary has grown by the ten merged symbols.
\<close>

theorem round_trip_example:
  "train 10 (initial_state [(''fast_'', 4), (''faster_'', 3), (''tall_'', 5), (''taller_'', 4)]) =
     Inr \<lparr>token_freqs = [(''fast_'', 4), (''fast er_'', 3), (''tall_'', 5), (''tall er_'', 4)],
          symbols = symbols0 @ [''ta'', ''tal'', ''tall'', ''fa'', ''fas'', ''fast'', ''er'', ''er_'',
                                ''tall_'', ''fast_''],
          merges = [(''t'', ''a''), (''ta'', ''l''), (''tal'', ''l''), (''f'', ''a''), (''fa'', ''s''),
                    (''fas'', ''t''), (''e'', ''r''), (''er'', ''_''), (''tall'', ''_''),
                    (''fast'', ''_'')]\<rparr>"
  by code_simp

end
